theory Spec2Isabelle
  imports Complex_Main
begin

section \<open>The follows table\<close>

text \<open>
  The store keeps one table of follow edges. Three programs of the repository write it:
  \<^verbatim>\<open>DatabaseService.add_follow_relationship\<close> (src/artifish/db/db_service.py), called by
  \<^verbatim>\<open>NetworkCrawlerService.crawl\<close>; \<^verbatim>\<open>NetworkTraversal._store_follow\<close>
  (src/workers/network_traversal.py); and \<^verbatim>\<open>UnfollowDetector._process_account_unfollows\<close>
  (src/workers/unfollow_detector.py). The table is a list of rows in insertion order;
  a query is a filter over it, an insert appends a row under a fresh \<^verbatim>\<open>id\<close>, an update
  rewrites the rows its filter selects. Readings of the wall clock are real numbers
  (seconds).
\<close>

type_synonym timestamp = real

datatype follow_status = Active | Unfollowed

record follow_row =
  row_id :: nat
  follower_did :: string
  following_did :: string
  follow_status :: follow_status
  created_at :: "timestamp option"
  last_verified_at :: "timestamp option"
  unfollowed_at :: "timestamp option"

type_synonym follows_table = "follow_row list"

definition edge_pair :: "follow_row \<Rightarrow> string \<times> string" where
  "edge_pair r = (follower_did r, following_did r)"

text \<open>\<^verbatim>\<open>.select(..).eq("follower_did", a).eq("following_did", b)\<close>\<close>

definition select_pair :: "string \<Rightarrow> string \<Rightarrow> follows_table \<Rightarrow> follow_row list" where
  "select_pair a b db = filter (\<lambda>r. follower_did r = a \<and> following_did r = b) db"

text \<open>\<^verbatim>\<open>.select(..).eq('follower_did', did).eq('follow_status', 'active')\<close>\<close>

definition select_active :: "string \<Rightarrow> follows_table \<Rightarrow> follow_row list" where
  "select_active did db = filter (\<lambda>r. follower_did r = did \<and> follow_status r = Active) db"

text \<open>
  The primary key of an inserted row is chosen by the store: one more than the largest
  key in use.
\<close>

definition fresh_id :: "follows_table \<Rightarrow> nat" where
  "fresh_id db = Suc (fold max (map row_id db) 0)"

text \<open>
  \<^verbatim>\<open>.insert({"follower_did": a, "following_did": b, ...})\<close>. The callers never send
  \<^verbatim>\<open>follow_status\<close> or \<^verbatim>\<open>unfollowed_at\<close>: the row takes the column defaults, an
  active edge that was never unfollowed (the table's declaration is not part of the
  Python sources; the default is the one the design document gives for a new edge).
  The two time stamps are the ones the caller sends, if any.
\<close>

definition new_row ::
  "nat \<Rightarrow> string \<Rightarrow> string \<Rightarrow> timestamp option \<Rightarrow> timestamp option \<Rightarrow> follow_row" where
  "new_row i a b ca lv =
     \<lparr>row_id = i, follower_did = a, following_did = b, follow_status = Active,
      created_at = ca, last_verified_at = lv, unfollowed_at = None\<rparr>"

definition insert_follow ::
  "string \<Rightarrow> string \<Rightarrow> timestamp option \<Rightarrow> timestamp option \<Rightarrow> follows_table \<Rightarrow> follows_table" where
  "insert_follow a b ca lv db = db @ [new_row (fresh_id db) a b ca lv]"

text \<open>
  \<^verbatim>\<open>DatabaseService.add_follow_relationship(follower_did, following_did)\<close>: look the pair
  up; when a row is there, return the first one; otherwise insert and return the new row.
\<close>

definition add_follow_relationship ::
  "string \<Rightarrow> string \<Rightarrow> follows_table \<Rightarrow> follows_table \<times> follow_row option" where
  "add_follow_relationship a b db =
     (case select_pair a b db of
        r # _ \<Rightarrow> (db, Some r)
      | [] \<Rightarrow> (insert_follow a b None None db, Some (new_row (fresh_id db) a b None None)))"

text \<open>
  \<^verbatim>\<open>NetworkTraversal._store_follow(follower_did, following_did)\<close>: look the pair up; insert
  it with both time stamps when it is new, otherwise refresh \<^verbatim>\<open>last_verified_at\<close> of the
  row whose \<^verbatim>\<open>id\<close> the query returned first.
\<close>

definition touch_row :: "timestamp \<Rightarrow> nat \<Rightarrow> follows_table \<Rightarrow> follows_table" where
  "touch_row now i db =
     map (\<lambda>r. if row_id r = i then r\<lparr>last_verified_at := Some now\<rparr> else r) db"

definition store_follow :: "timestamp \<Rightarrow> string \<Rightarrow> string \<Rightarrow> follows_table \<Rightarrow> follows_table" where
  "store_follow now a b db =
     (case select_pair a b db of
        [] \<Rightarrow> insert_follow a b (Some now) (Some now) db
      | r # _ \<Rightarrow> touch_row now (row_id r) db)"

text \<open>
  \<^verbatim>\<open>NetworkCrawlerService.crawl\<close>, lines 79 to 107: one \<^verbatim>\<open>add_follow_relationship(did, f)\<close>
  for each account \<open>f\<close> the subject follows, then one \<^verbatim>\<open>add_follow_relationship(f, did)\<close>
  for each follower. The calls of \<^verbatim>\<open>add_bluesky_account\<close> in between write the accounts
  table only and are left out.
\<close>

definition crawl_follows :: "string \<Rightarrow> string list \<Rightarrow> string list \<Rightarrow> follows_table \<Rightarrow> follows_table" where
  "crawl_follows did follows followers db =
     fold (\<lambda>f t. fst (add_follow_relationship f did t)) followers
       (fold (\<lambda>f t. fst (add_follow_relationship did f t)) follows db)"

subsection \<open>The unfollow detector\<close>

text \<open>
  \<^verbatim>\<open>BlueskyAPIClient.get_all_follows\<close> of the detector pages through
  \<^verbatim>\<open>app.bsky.graph.getFollows\<close>. The server is a function from the cursor sent (none on
  the first request) to what comes back: a page with status 200, another status, or an
  exception of the transport. An entry of a page may lack its \<^verbatim>\<open>did\<close>.
\<close>

datatype page_reply =
    Page "string option list" "string option"
  | Bad_Status
  | Raised

text \<open>Python's truth value of an optional string: \<^verbatim>\<open>None\<close> and \<^verbatim>\<open>""\<close> are false.\<close>

fun truthy :: "string option \<Rightarrow> bool" where
  "truthy None = False"
| "truthy (Some s) = (s \<noteq> [])"

definition page_dids :: "string option list \<Rightarrow> string list" where
  "page_dids fs = map the (filter truthy fs)"

text \<open>
  The \<^verbatim>\<open>while True\<close> loop ends on a page without a cursor, on a status other than 200
  and on an exception, and returns what it has collected by then. A server that hands
  out a cursor with every page keeps it running: the model counts the requests down
  and returns \<open>None\<close> when the count is used up.
\<close>

fun get_all_follows_loop ::
  "nat \<Rightarrow> (string option \<Rightarrow> page_reply) \<Rightarrow> string option \<Rightarrow> string set \<Rightarrow> string set option" where
  "get_all_follows_loop 0 srv cursor follows = None"
| "get_all_follows_loop (Suc n) srv cursor follows =
     (case srv (if truthy cursor then cursor else None) of
        Page fs cursor' \<Rightarrow>
          (let follows' = follows \<union> set (page_dids fs)
           in if truthy cursor' then get_all_follows_loop n srv cursor' follows'
              else Some follows')
      | Bad_Status \<Rightarrow> Some follows
      | Raised \<Rightarrow> Some follows)"

definition get_all_follows :: "nat \<Rightarrow> (string option \<Rightarrow> page_reply) \<Rightarrow> string set option" where
  "get_all_follows n srv = get_all_follows_loop n srv None {}"

text \<open>
  \<^verbatim>\<open>db_follows = {follow['following_did']: follow['id'] for follow in result.data}\<close>: a later
  row of the same key overwrites an earlier one.
\<close>

definition db_follows_of :: "follow_row list \<Rightarrow> (string \<rightharpoonup> nat)" where
  "db_follows_of rows = map_of (rev (map (\<lambda>r. (following_did r, row_id r)) rows))"

text \<open>\<^verbatim>\<open>unfollowed_dids = set(db_follows.keys()) - current_follows\<close>, each key once.\<close>

definition unfollowed_dids :: "string \<Rightarrow> string set \<Rightarrow> follows_table \<Rightarrow> string list" where
  "unfollowed_dids did current db =
     filter (\<lambda>d. d \<notin> current) (remdups (map following_did (select_active did db)))"

text \<open>\<^verbatim>\<open>.update({"follow_status": "unfollowed", "unfollowed_at": now}).eq('id', follow_id)\<close>\<close>

definition update_unfollowed :: "timestamp \<Rightarrow> nat \<Rightarrow> follows_table \<Rightarrow> follows_table" where
  "update_unfollowed now i db =
     map (\<lambda>r. if row_id r = i then r\<lparr>follow_status := Unfollowed, unfollowed_at := Some now\<rparr>
              else r) db"

text \<open>
  The loop over \<^verbatim>\<open>unfollowed_dids\<close>: one update per key, by the row id the dictionary
  holds for it. The dictionary is built once, before the loop.
\<close>

definition mark_unfollows :: "timestamp \<Rightarrow> string \<Rightarrow> string set \<Rightarrow> follows_table \<Rightarrow> follows_table" where
  "mark_unfollows now did current db =
     fold (\<lambda>d t. case db_follows_of (select_active did db) d of
                    Some i \<Rightarrow> update_unfollowed now i t
                  | None \<Rightarrow> t)
       (unfollowed_dids did current db) db"

text \<open>
  \<^verbatim>\<open>UnfollowDetector._process_account_unfollows(did)\<close>: read the active rows of the
  subject, fetch the current follows, mark the difference.
\<close>

definition process_account_unfollows ::
  "nat \<Rightarrow> (string option \<Rightarrow> page_reply) \<Rightarrow> timestamp \<Rightarrow> string \<Rightarrow> follows_table \<Rightarrow> follows_table option" where
  "process_account_unfollows n srv now did db =
     (case get_all_follows n srv of
        None \<Rightarrow> None
      | Some current \<Rightarrow> Some (mark_unfollows now did current db))"

text \<open>The stored active follow-set of a subject.\<close>

definition active_follows :: "string \<Rightarrow> follows_table \<Rightarrow> string set" where
  "active_follows did db = set (map following_did (select_active did db))"

text \<open>A run of the writers of the table, in any order.\<close>

datatype table_op =
    Add_Follow string string
  | Store_Follow timestamp string string
  | Crawl string "string list" "string list"
  | Detect timestamp string "string set"

fun apply_op :: "table_op \<Rightarrow> follows_table \<Rightarrow> follows_table" where
  "apply_op (Add_Follow a b) db = fst (add_follow_relationship a b db)"
| "apply_op (Store_Follow now a b) db = store_follow now a b db"
| "apply_op (Crawl did follows followers) db = crawl_follows did follows followers db"
| "apply_op (Detect now did current) db = mark_unfollows now did current db"

definition run_ops :: "table_op list \<Rightarrow> follows_table \<Rightarrow> follows_table" where
  "run_ops ops db = fold apply_op ops db"

text \<open>What the update writes into one row.\<close>

definition retire :: "timestamp \<Rightarrow> follow_row \<Rightarrow> follow_row" where
  "retire now r = r\<lparr>follow_status := Unfollowed, unfollowed_at := Some now\<rparr>"

text \<open>
  A table \<open>db'\<close> keeps the rows of \<open>db\<close>: every row of \<open>db\<close> is still there, at its
  place, with its key and its pair, and a row that was unfollowed is unfollowed.
\<close>

definition keeps :: "follows_table \<Rightarrow> follows_table \<Rightarrow> bool" where
  "keeps db db' \<longleftrightarrow>
     length db \<le> length db' \<and>
     (\<forall>i < length db.
        row_id (db' ! i) = row_id (db ! i) \<and> edge_pair (db' ! i) = edge_pair (db ! i) \<and>
        (follow_status (db ! i) = Unfollowed \<longrightarrow> follow_status (db' ! i) = Unfollowed) \<and>
        (unfollowed_at (db ! i) \<noteq> None \<longrightarrow> unfollowed_at (db' ! i) \<noteq> None))"

subsection \<open>A stored table and a server, for the examples\<close>

text \<open>
  The subject \<^verbatim>\<open>did:x\<close> follows \<^verbatim>\<open>did:a\<close>, \<^verbatim>\<open>did:b\<close> and \<^verbatim>\<open>did:c\<close> in the store; the server
  answers with one page: \<^verbatim>\<open>did:b\<close>, \<^verbatim>\<open>did:c\<close> and \<^verbatim>\<open>did:d\<close>.
\<close>

definition db0 :: follows_table where
  "db0 = [new_row 1 ''did:x'' ''did:a'' None None,
          new_row 2 ''did:x'' ''did:b'' None None,
          new_row 3 ''did:x'' ''did:c'' None None]"

definition srv0 :: "string option \<Rightarrow> page_reply" where
  "srv0 c = Page [Some ''did:b'', Some ''did:c'', Some ''did:d''] None"


definition db1 :: follows_table where
  "db1 = [retire 5 (new_row 1 ''did:x'' ''did:a'' None None),
          new_row 2 ''did:x'' ''did:b'' None None]"

definition ops1 :: "table_op list" where
  "ops1 = [Add_Follow ''did:x'' ''did:a'', Store_Follow 9 ''did:x'' ''did:a'',
           Crawl ''did:x'' [''did:a'', ''did:d''] [''did:e''], Detect 10 ''did:x'' {''did:a''}]"

text \<open>A row without its \<^verbatim>\<open>last_verified_at\<close>.\<close>

definition forget_verified :: "follow_row \<Rightarrow> follow_row" where
  "forget_verified r = r\<lparr>last_verified_at := None\<rparr>"

section \<open>The API client of the traversal worker\<close>

text \<open>
  \<^verbatim>\<open>BlueskyAPIClient\<close> of src/workers/network_traversal_db_queue.py. The fields of the
  object are a record; the session object is left out. Times are readings of
  \<^verbatim>\<open>time.time()\<close>, in seconds.
\<close>

record client =
  username :: "string option"
  password :: "string option"
  auth_token :: "string option"
  rate_limit_remaining :: int
  rate_limit_reset :: real
  token_created_at :: "real option"
  token_expires_in :: real

text \<open>\<^verbatim>\<open>__init__(pds_host, username, password)\<close>\<close>

definition init_client :: "string option \<Rightarrow> string option \<Rightarrow> client" where
  "init_client u p =
     \<lparr>username = u, password = p, auth_token = None, rate_limit_remaining = 100,
      rate_limit_reset = 0, token_created_at = None, token_expires_in = 3600\<rparr>"

subsection \<open>Requests, replies and the world\<close>

datatype endpoint = Create_Session | Describe_Repo | Get_Profile | Get_Follows | Get_Followers

record request =
  req_endpoint :: endpoint
  req_actor :: string
  req_cursor :: "string option"
  req_bearer :: "string option"

text \<open>An entry of a page of follows or followers: its \<^verbatim>\<open>did\<close> and its \<^verbatim>\<open>handle\<close>, if any.\<close>

record actor =
  actor_did :: "string option"
  actor_handle :: "string option"

text \<open>
  The JSON of a reply, by endpoint: the \<^verbatim>\<open>accessJwt\<close> of a session, the fields of a
  profile, a page of actors with its cursor.
\<close>

datatype body =
    Session "string option"
  | Fields "(string \<times> string) list"
  | Actors "actor list" "string option"

text \<open>
  A reply has a status, a body and headers (names in lower case); a request can also
  end in an exception of the transport.
\<close>

datatype reply =
    Reply nat body "(string \<times> string) list"
  | Transport_Error

text \<open>
  The server answers the \<open>n\<close>-th request the process sends with the time the exchange
  takes and a reply.
\<close>

type_synonym server = "nat \<Rightarrow> request \<Rightarrow> real \<times> reply"

text \<open>What the worker asks of the store.\<close>

datatype crawl_outcome = Completed | Failed | Error

datatype store_call =
    Store_User string string
  | Mark_Crawled string crawl_outcome
  | Process_Follows string "string list"
  | Enqueue string
  | Update_Priorities

text \<open>
  The world outside the object: the clock, the requests sent so far (each with the time
  it was sent, newest last), the calls made to the store so far, and how many random
  numbers were drawn.
\<close>

record world =
  clock :: real
  sent :: "(real \<times> request) list"
  calls :: "store_call list"
  draws :: nat

definition send :: "server \<Rightarrow> request \<Rightarrow> world \<Rightarrow> reply \<times> world" where
  "send srv rq w =
     (case srv (length (sent w)) rq of
        (d, rp) \<Rightarrow> (rp, w\<lparr>clock := clock w + d, sent := sent w @ [(clock w, rq)]\<rparr>))"

text \<open>\<^verbatim>\<open>await asyncio.sleep(d)\<close>\<close>

definition sleep :: "real \<Rightarrow> world \<Rightarrow> world" where
  "sleep d w = w\<lparr>clock := clock w + max 0 d\<rparr>"

subsection \<open>The token\<close>

text \<open>
  \<^verbatim>\<open>is_token_expired\<close>: true without a token or without its creation time (\<^verbatim>\<open>None\<close> and
  \<^verbatim>\<open>0.0\<close> are false in Python); otherwise true from 300 seconds before the expiry on.
\<close>

definition is_token_expired :: "client \<Rightarrow> real \<Rightarrow> bool" where
  "is_token_expired c current_time =
     (case token_created_at c of
        None \<Rightarrow> True
      | Some t \<Rightarrow>
          if \<not> truthy (auth_token c) \<or> t = 0 then True
          else current_time \<ge> t + token_expires_in c - 300)"

definition jwt_of :: "body \<Rightarrow> string option" where
  "jwt_of b = (case b of Session j \<Rightarrow> j | _ \<Rightarrow> None)"

definition bearer :: "client \<Rightarrow> string option" where
  "bearer c = (if truthy (auth_token c) then auth_token c else None)"

text \<open>
  \<^verbatim>\<open>_authenticate\<close>: one POST to \<^verbatim>\<open>com.atproto.server.createSession\<close>. On status 200 the
  token, its creation time and its lifetime are set; otherwise nothing changes.
\<close>

definition authenticate :: "server \<Rightarrow> client \<Rightarrow> world \<Rightarrow> client \<times> world" where
  "authenticate srv c w =
     (case send srv \<lparr>req_endpoint = Create_Session,
                     req_actor = (case username c of Some u \<Rightarrow> u | None \<Rightarrow> []),
                     req_cursor = None, req_bearer = None\<rparr> w of
        (Reply status b hs, w') \<Rightarrow>
          if status = 200
          then (c\<lparr>auth_token := jwt_of b, token_created_at := Some (clock w'),
                  token_expires_in := 3600\<rparr>, w')
          else (c, w')
      | (Transport_Error, w') \<Rightarrow> (c, w'))"

text \<open>\<^verbatim>\<open>initialize\<close>: authenticate when credentials are there and no token is.\<close>

definition initialize :: "server \<Rightarrow> client \<Rightarrow> world \<Rightarrow> client \<times> world" where
  "initialize srv c w =
     (if truthy (username c) \<and> truthy (password c) \<and> \<not> truthy (auth_token c)
      then authenticate srv c w else (c, w))"

subsection \<open>The rate limit\<close>

text \<open>
  \<^verbatim>\<open>_check_rate_limit\<close>: first the token, then the budget. Below 10 remaining requests
  it sleeps until the reset time and one second more, when the reset time is ahead.
\<close>

definition check_rate_limit :: "server \<Rightarrow> client \<Rightarrow> world \<Rightarrow> client \<times> world" where
  "check_rate_limit srv c w =
     (case (if truthy (username c) \<and> truthy (password c) \<and> is_token_expired c (clock w)
            then authenticate srv c w else (c, w)) of
        (c1, w1) \<Rightarrow>
          if rate_limit_remaining c1 < 10
          then (let delay = max 0 (rate_limit_reset c1 - clock w1)
                in if delay > 0 then (c1, sleep (delay + 1) w1) else (c1, w1))
          else (c1, w1))"

text \<open>
  Python's \<^verbatim>\<open>int(s)\<close> of a string: white space around it is dropped, a sign may come
  first, then decimal digits, with single underscores between digits. Anything else
  raises \<^verbatim>\<open>ValueError\<close>, here \<open>None\<close>; so does a string of more than 4300 digits (the
  default of \<^verbatim>\<open>sys.set_int_max_str_digits\<close>). The value of a header is read as a string
  of ASCII characters: the white space of ASCII is the blank, the characters 9 to 13
  and the separators 28 to 31. The white space and the digits Python accepts outside
  ASCII are not modelled; a \<^typ>\<open>char\<close> is a byte.
\<close>

definition is_space :: "char \<Rightarrow> bool" where
  "is_space ch = (ch \<in> set [CHR '' '', CHR 0x09, CHR 0x0A, CHR 0x0B, CHR 0x0C, CHR 0x0D,
                             CHR 0x1C, CHR 0x1D, CHR 0x1E, CHR 0x1F])"

definition digit_of :: "char \<Rightarrow> nat option" where
  "digit_of ch = (let n = (of_char ch :: nat) in if 48 \<le> n \<and> n \<le> 57 then Some (n - 48) else None)"

fun py_digits :: "string \<Rightarrow> nat \<Rightarrow> nat option" where
  "py_digits [] acc = None"
| "py_digits [ch] acc = map_option (\<lambda>d. 10 * acc + d) (digit_of ch)"
| "py_digits (ch # u # cs) acc =
     (case digit_of ch of
        None \<Rightarrow> None
      | Some d \<Rightarrow> if u = CHR ''_'' then py_digits cs (10 * acc + d)
                  else py_digits (u # cs) (10 * acc + d))"

definition py_int :: "string \<Rightarrow> int option" where
  "py_int s =
     (case rev (dropWhile is_space (rev (dropWhile is_space s))) of
        [] \<Rightarrow> None
      | ch # cs \<Rightarrow>
          if length (filter (\<lambda>x. digit_of x \<noteq> None) (ch # cs)) > 4300 then None
          else if ch = CHR ''-'' then map_option (\<lambda>n. - int n) (py_digits cs 0)
          else if ch = CHR ''+'' then map_option int (py_digits cs 0)
          else map_option int (py_digits (ch # cs) 0))"

text \<open>\<^verbatim>\<open>int(response.headers.get(name, default))\<close>\<close>

definition header_int :: "(string \<times> string) list \<Rightarrow> string \<Rightarrow> int \<Rightarrow> int option" where
  "header_int hs name dflt = (case map_of hs name of None \<Rightarrow> Some dflt | Some v \<Rightarrow> py_int v)"

text \<open>
  \<^verbatim>\<open>time.time() + n\<close> turns the integer \<open>n\<close> into a float first, and raises
  \<^verbatim>\<open>OverflowError\<close> when it is too large for one: from \<open>2 ^ 1024 - 2 ^ 970\<close> on, in
  absolute value.
\<close>

definition float_overflow :: "int \<Rightarrow> bool" where
  "float_overflow n = (\<bar>n\<bar> \<ge> 2 ^ 1024 - 2 ^ 970)"

text \<open>
  \<^verbatim>\<open>_update_rate_limit(response)\<close>. Without a \<^verbatim>\<open>ratelimit-limit\<close> header nothing is
  written. With it, the remaining count (100 when its header is missing) and the reset
  time (now, when its header is missing) are written; when either value does not
  parse, the handler of \<^verbatim>\<open>ValueError\<close> writes 10 and now + 60 instead. A reset value
  too large for a float raises \<^verbatim>\<open>OverflowError\<close>, which the handler does not catch: the
  remaining count is written by then, the reset time is not, and the exception reaches
  the caller (\<open>update_raises\<close> tells when).
\<close>

definition update_rate_limit :: "client \<Rightarrow> (string \<times> string) list \<Rightarrow> real \<Rightarrow> client" where
  "update_rate_limit c hs now =
     (if map_of hs ''ratelimit-limit'' = None then c
      else case header_int hs ''ratelimit-remaining'' 100 of
             None \<Rightarrow> c\<lparr>rate_limit_remaining := 10, rate_limit_reset := now + 60\<rparr>
           | Some remaining \<Rightarrow>
               (case header_int hs ''ratelimit-reset'' 0 of
                  None \<Rightarrow> c\<lparr>rate_limit_remaining := 10, rate_limit_reset := now + 60\<rparr>
                | Some reset \<Rightarrow>
                    if float_overflow reset then c\<lparr>rate_limit_remaining := remaining\<rparr>
                    else c\<lparr>rate_limit_remaining := remaining,
                           rate_limit_reset := now + of_int reset\<rparr>))"

definition update_raises :: "(string \<times> string) list \<Rightarrow> bool" where
  "update_raises hs =
     (if map_of hs ''ratelimit-limit'' = None then False
      else case header_int hs ''ratelimit-remaining'' 100 of
             None \<Rightarrow> False
           | Some remaining \<Rightarrow>
               (case header_int hs ''ratelimit-reset'' 0 of
                  None \<Rightarrow> False
                | Some reset \<Rightarrow> float_overflow reset))"

subsection \<open>The requests\<close>

definition actors_of :: "body \<Rightarrow> actor list" where
  "actors_of b = (case b of Actors as cur \<Rightarrow> as | _ \<Rightarrow> [])"

definition cursor_of :: "body \<Rightarrow> string option" where
  "cursor_of b = (case b of Actors as cur \<Rightarrow> cur | _ \<Rightarrow> None)"

definition fields_of :: "body \<Rightarrow> (string \<times> string) list" where
  "fields_of b = (case b of Fields fs \<Rightarrow> fs | _ \<Rightarrow> [])"

text \<open>
  \<^verbatim>\<open>get_follows(did, limit, cursor)\<close> and \<^verbatim>\<open>get_followers(did, limit, cursor)\<close> differ in
  the endpoint only: initialize, check the rate limit, send; on status 200 update the
  rate limit and return the page; on any other status and on an exception (of the
  transport, or of the update of the rate limit) return the empty page.
\<close>

definition get_page ::
  "endpoint \<Rightarrow> server \<Rightarrow> string \<Rightarrow> string option \<Rightarrow> client \<Rightarrow> world \<Rightarrow>
   (actor list \<times> string option) \<times> client \<times> world" where
  "get_page ep srv did cursor c w =
     (case initialize srv c w of (c1, w1) \<Rightarrow>
      case check_rate_limit srv c1 w1 of (c2, w2) \<Rightarrow>
      case send srv \<lparr>req_endpoint = ep, req_actor = did,
                      req_cursor = (if truthy cursor then cursor else None),
                      req_bearer = bearer c2\<rparr> w2 of
        (Reply status b hs, w3) \<Rightarrow>
          if status = 200
          then (if update_raises hs then ([], None) else (actors_of b, cursor_of b),
                update_rate_limit c2 hs (clock w3), w3)
          else (([], None), c2, w3)
      | (Transport_Error, w3) \<Rightarrow> (([], None), c2, w3))"

definition get_follows ::
  "server \<Rightarrow> string \<Rightarrow> string option \<Rightarrow> client \<Rightarrow> world \<Rightarrow>
   (actor list \<times> string option) \<times> client \<times> world" where
  "get_follows = get_page Get_Follows"

definition get_followers ::
  "server \<Rightarrow> string \<Rightarrow> string option \<Rightarrow> client \<Rightarrow> world \<Rightarrow>
   (actor list \<times> string option) \<times> client \<times> world" where
  "get_followers = get_page Get_Followers"

text \<open>
  \<^verbatim>\<open>_get_profile_details(did)\<close>: nothing without a \<^verbatim>\<open>did\<close>; otherwise check the rate
  limit, send, and on status 200 update the rate limit and return the fields (nothing,
  when the update raises).
\<close>

definition get_profile_details ::
  "server \<Rightarrow> string option \<Rightarrow> client \<Rightarrow> world \<Rightarrow> (string \<times> string) list option \<times> client \<times> world" where
  "get_profile_details srv did c w =
     (if \<not> truthy did then (None, c, w)
      else case check_rate_limit srv c w of (c1, w1) \<Rightarrow>
           case send srv \<lparr>req_endpoint = Get_Profile, req_actor = (case did of Some d \<Rightarrow> d | None \<Rightarrow> []),
                           req_cursor = None,
                           req_bearer = bearer c1\<rparr> w1 of
             (Reply status b hs, w2) \<Rightarrow>
               if status = 200
               then (if update_raises hs then None else Some (fields_of b),
                     update_rate_limit c1 hs (clock w2), w2)
               else (None, c1, w2)
           | (Transport_Error, w2) \<Rightarrow> (None, c1, w2))"

text \<open>
  \<^verbatim>\<open>get_profile(handle)\<close>: initialize, check the rate limit, send
  \<^verbatim>\<open>com.atproto.repo.describeRepo\<close>. On status 200 it first fetches the details (a second
  request, with its own check of the rate limit), merges them, and only then updates the
  rate limit from the headers of the first reply; when that update raises, the
  exception is caught and there is no profile.
\<close>

definition get_profile ::
  "server \<Rightarrow> string \<Rightarrow> client \<Rightarrow> world \<Rightarrow> (string \<times> string) list option \<times> client \<times> world" where
  "get_profile srv handle c w =
     (case initialize srv c w of (c1, w1) \<Rightarrow>
      case check_rate_limit srv c1 w1 of (c2, w2) \<Rightarrow>
      case send srv \<lparr>req_endpoint = Describe_Repo, req_actor = handle, req_cursor = None,
                      req_bearer = bearer c2\<rparr> w2 of
        (Reply status b hs, w3) \<Rightarrow>
          if status = 200
          then (case get_profile_details srv (map_of (fields_of b) ''did'') c2 w3 of
                  (details, c3, w4) \<Rightarrow>
                    (if update_raises hs then None
                     else Some (case details of Some d \<Rightarrow> d @ fields_of b
                                | None \<Rightarrow> fields_of b),
                     update_rate_limit c3 hs (clock w4), w4))
          else (None, c2, w3)
      | (Transport_Error, w3) \<Rightarrow> (None, c2, w3))"

definition session_request :: "client \<Rightarrow> request" where
  "session_request c =
     \<lparr>req_endpoint = Create_Session, req_actor = (case username c of Some u \<Rightarrow> u | None \<Rightarrow> []),
      req_cursor = None, req_bearer = None\<rparr>"

definition endpoints_sent :: "world \<Rightarrow> endpoint list" where
  "endpoints_sent w = map (\<lambda>x. req_endpoint (snd x)) (sent w)"

text \<open>A client that holds a token created at time 1000000, and a server that is down.\<close>

definition client5 :: client where
  "client5 = (init_client (Some ''crawler.example'') (Some ''secret''))
               \<lparr>auth_token := Some ''jwt'', token_created_at := Some 1000000\<rparr>"

definition world_at :: "real \<Rightarrow> world" where
  "world_at t = \<lparr>clock = t, sent = [], calls = [], draws = 0\<rparr>"

definition server_down :: server where
  "server_down n rq = (0, Transport_Error)"

text \<open>
  A server whose first reply (to \<^verbatim>\<open>describeRepo\<close>) reports 5 remaining requests and a
  reset in 60 seconds; every exchange takes half a second.
\<close>

definition low_budget :: "(string \<times> string) list" where
  "low_budget = [(''ratelimit-limit'', ''3000''), (''ratelimit-remaining'', ''5''),
                 (''ratelimit-reset'', ''60'')]"

definition server6 :: server where
  "server6 n rq =
     (if n = 0
      then (1 / 2, Reply 200 (Fields [(''did'', ''did:plc:alice''), (''handle'', ''alice.example'')])
                     low_budget)
      else (1 / 2, Reply 200 (Fields [(''displayName'', ''Alice'')])
                     [(''ratelimit-limit'', ''3000''), (''ratelimit-remaining'', ''4''),
                      (''ratelimit-reset'', ''59'')]))"

section \<open>The traversal worker\<close>

text \<open>
  \<^verbatim>\<open>NetworkTraversal\<close> of src/workers/network_traversal_db_queue.py. What the worker
  cannot decide is given from outside: the server, whether the \<open>n\<close>-th call to the store
  succeeds (a call that does not raises an exception), the numbers \<^verbatim>\<open>random.random()\<close>
  returns, and the delay between requests.
\<close>

record env =
  env_server :: server
  env_store_ok :: "nat \<Rightarrow> store_call \<Rightarrow> bool"
  env_random :: "nat \<Rightarrow> real"
  env_delay :: real

definition store_rpc :: "env \<Rightarrow> store_call \<Rightarrow> world \<Rightarrow> bool \<times> world" where
  "store_rpc e call w = (env_store_ok e (length (calls w)) call, w\<lparr>calls := calls w @ [call]\<rparr>)"

definition draw :: "env \<Rightarrow> world \<Rightarrow> real \<times> world" where
  "draw e w = (env_random e (draws w), w\<lparr>draws := Suc (draws w)\<rparr>)"

text \<open>
  \<^verbatim>\<open>_store_user(did, handle, profile_data)\<close> writes the account and catches every
  exception; its update, insert and upsert are one call to the store here.
\<close>

definition store_user :: "env \<Rightarrow> string \<Rightarrow> string \<Rightarrow> world \<Rightarrow> world" where
  "store_user e did handle w = snd (store_rpc e (Store_User did handle) w)"

text \<open>
  The body of the loop over a page of follows: an entry with a \<^verbatim>\<open>did\<close> and a \<^verbatim>\<open>handle\<close>
  is stored and its \<^verbatim>\<open>did\<close> appended.
\<close>

fun store_follows_page :: "env \<Rightarrow> actor list \<Rightarrow> string list \<Rightarrow> world \<Rightarrow> string list \<times> world" where
  "store_follows_page e [] acc w = (acc, w)"
| "store_follows_page e (a # as) acc w =
     (case (actor_did a, actor_handle a) of
        (Some d, Some h) \<Rightarrow>
          if d \<noteq> [] \<and> h \<noteq> [] then store_follows_page e as (acc @ [d]) (store_user e d h w)
          else store_follows_page e as acc w
      | _ \<Rightarrow> store_follows_page e as acc w)"

text \<open>
  \<^verbatim>\<open>_collect_all_follows(did)\<close>: the loop ends on an empty page and on a page without a
  cursor. \<^verbatim>\<open>get_follows\<close> answers a failed request with the empty page, so the loop
  ends there as well, with what it has collected. The count of requests left is the
  first argument; \<open>None\<close> when it is used up.
\<close>

fun collect_all_follows_loop ::
  "nat \<Rightarrow> env \<Rightarrow> string \<Rightarrow> string option \<Rightarrow> string list \<Rightarrow> client \<Rightarrow> world \<Rightarrow>
   (string list \<times> client \<times> world) option" where
  "collect_all_follows_loop 0 e did cursor follows_dids c w = None"
| "collect_all_follows_loop (Suc n) e did cursor follows_dids c w =
     (case get_follows (env_server e) did cursor c w of
        ((follows, cursor'), c1, w1) \<Rightarrow>
          if follows = [] then Some (follows_dids, c1, w1)
          else (case store_follows_page e follows follows_dids w1 of
                  (follows_dids', w2) \<Rightarrow>
                    if \<not> truthy cursor' then Some (follows_dids', c1, w2)
                    else collect_all_follows_loop n e did cursor' follows_dids' c1
                           (sleep (env_delay e) w2)))"

definition collect_all_follows ::
  "nat \<Rightarrow> env \<Rightarrow> string \<Rightarrow> client \<Rightarrow> world \<Rightarrow> (string list \<times> client \<times> world) option" where
  "collect_all_follows n e did c w = collect_all_follows_loop n e did None [] c w"

text \<open>
  The body of the loop over a page of followers: the entry is stored, and with one chance
  in five it is put on the queue by an update that is not guarded: an exception of the
  store leaves the loop (the flag returned is true then).
\<close>

fun store_followers_page :: "env \<Rightarrow> actor list \<Rightarrow> world \<Rightarrow> bool \<times> world" where
  "store_followers_page e [] w = (False, w)"
| "store_followers_page e (a # as) w =
     (case (actor_did a, actor_handle a) of
        (Some d, Some h) \<Rightarrow>
          if d \<noteq> [] \<and> h \<noteq> []
          then (case draw e (store_user e d h w) of
                  (r, w1) \<Rightarrow>
                    if r < 0.2
                    then (case store_rpc e (Enqueue d) w1 of
                            (True, w2) \<Rightarrow> store_followers_page e as w2
                          | (False, w2) \<Rightarrow> (True, w2))
                    else store_followers_page e as w1)
          else store_followers_page e as w
      | _ \<Rightarrow> store_followers_page e as w)"

text \<open>\<^verbatim>\<open>_collect_some_followers(did, max_pages)\<close>: at most \<^verbatim>\<open>max_pages\<close> pages.\<close>

fun collect_some_followers ::
  "nat \<Rightarrow> env \<Rightarrow> string \<Rightarrow> string option \<Rightarrow> client \<Rightarrow> world \<Rightarrow> bool \<times> client \<times> world" where
  "collect_some_followers 0 e did cursor c w = (False, c, w)"
| "collect_some_followers (Suc pages) e did cursor c w =
     (case get_followers (env_server e) did cursor c w of
        ((followers, cursor'), c1, w1) \<Rightarrow>
          if followers = [] then (False, c1, w1)
          else (case store_followers_page e followers w1 of
                  (True, w2) \<Rightarrow> (True, c1, w2)
                | (False, w2) \<Rightarrow>
                    if \<not> truthy cursor' then (False, c1, w2)
                    else collect_some_followers pages e did cursor' c1 (sleep (env_delay e) w2)))"

text \<open>The handler of \<^verbatim>\<open>_process_account\<close>: mark the account as error, whatever comes of it.\<close>

definition mark_error :: "env \<Rightarrow> string \<Rightarrow> world \<Rightarrow> world" where
  "mark_error e did w = snd (store_rpc e (Mark_Crawled did Error) w)"

text \<open>
  \<^verbatim>\<open>_process_account(did, handle)\<close>. Without a profile (\<^verbatim>\<open>None\<close>, or an empty object) the
  account is marked failed and the function returns. Otherwise the user is stored, the
  follows are collected, with one chance in two some followers are collected, the
  follows are handed to the stored procedure \<^verbatim>\<open>process_account_follows\<close> and the account
  is marked completed. An exception of the store on the way is caught: the account is
  marked error. The first argument bounds the requests of \<^verbatim>\<open>_collect_all_follows\<close>.
\<close>

definition process_account ::
  "nat \<Rightarrow> env \<Rightarrow> string \<Rightarrow> string \<Rightarrow> client \<Rightarrow> world \<Rightarrow> (client \<times> world) option" where
  "process_account n e did handle c w =
     (case get_profile (env_server e) handle c w of
        (profile, c1, w1) \<Rightarrow>
          if profile = None \<or> profile = Some []
          then (case store_rpc e (Mark_Crawled did Failed) w1 of
                  (True, w2) \<Rightarrow> Some (c1, w2)
                | (False, w2) \<Rightarrow> Some (c1, mark_error e did w2))
          else (case collect_all_follows n e did c1 (store_user e did handle w1) of
                  None \<Rightarrow> None
                | Some (follows_dids, c2, w3) \<Rightarrow>
                    (case draw e w3 of
                       (r, w4) \<Rightarrow>
                         (case (if r < 0.5 then collect_some_followers 3 e did None c2 w4
                                else (False, c2, w4)) of
                            (True, c3, w5) \<Rightarrow> Some (c3, mark_error e did w5)
                          | (False, c3, w5) \<Rightarrow>
                              (case store_rpc e (Process_Follows did follows_dids) w5 of
                                 (False, w6) \<Rightarrow> Some (c3, mark_error e did w6)
                               | (True, w6) \<Rightarrow>
                                   (case store_rpc e (Mark_Crawled did Completed) w6 of
                                      (False, w7) \<Rightarrow> Some (c3, mark_error e did w7)
                                    | (True, w7) \<Rightarrow> Some (c3, w7)))))))"

text \<open>
  An environment whose server does not know the handle (status 400 for every request),
  whose store accepts every call, and whose random numbers are all 0.9.
\<close>

definition server_unknown :: server where
  "server_unknown n rq = (1 / 4, Reply 400 (Fields [(''error'', ''InvalidRequest'')]) [])"

definition env8 :: env where
  "env8 = \<lparr>env_server = server_unknown, env_store_ok = (\<lambda>n call. True),
           env_random = (\<lambda>n. 9 / 10), env_delay = 2\<rparr>"

text \<open>
  A server that knows \<^verbatim>\<open>x.example\<close>, hands out the first page of its follows with a
  cursor, and fails with status 502 from then on.
\<close>

definition server2 :: server where
  "server2 n rq =
     (if n = 0 then (1 / 4, Reply 200 (Fields [(''did'', ''did:x''), (''handle'', ''x.example'')]) [])
      else if n = 1 then (1 / 4, Reply 200 (Fields [(''displayName'', ''X'')]) [])
      else if n = 2 then
        (1 / 4, Reply 200 (Actors [\<lparr>actor_did = Some ''did:a'', actor_handle = Some ''a.example''\<rparr>,
                                   \<lparr>actor_did = Some ''did:b'', actor_handle = Some ''b.example''\<rparr>]
                                  (Some ''page2'')) [])
      else (1 / 4, Reply 502 (Fields [(''error'', ''UpstreamFailure'')]) []))"

definition env2 :: env where
  "env2 = \<lparr>env_server = server2, env_store_ok = (\<lambda>n call. True),
           env_random = (\<lambda>n. 9 / 10), env_delay = 2\<rparr>"

definition world2 :: world where
  "world2 = \<lparr>clock = 1000 + 1 / 2,
        sent = [(1000, \<lparr>req_endpoint = Describe_Repo, req_actor = ''x.example'',
                        req_cursor = None, req_bearer = None\<rparr>),
                (1000 + 1 / 4, \<lparr>req_endpoint = Get_Profile, req_actor = ''did:x'',
                        req_cursor = None, req_bearer = None\<rparr>)],
        calls = [Store_User ''did:x'' ''x.example''], draws = 0\<rparr>"

subsection \<open>The main loop\<close>

text \<open>
  \<^verbatim>\<open>NetworkTraversal.start\<close>. The queue lives in the store, behind the stored procedures
  \<^verbatim>\<open>get_accounts_to_crawl\<close> and \<^verbatim>\<open>get_recommended_accounts\<close>, which are not part of the
  Python sources: the answer to the \<open>k\<close>-th pull with a given limit, and whether
  recommended accounts could be added then, are given from outside. An account is a
  \<^verbatim>\<open>did\<close> with a \<^verbatim>\<open>handle\<close>.
\<close>

record queue =
  next_accounts :: "nat \<Rightarrow> int \<Rightarrow> (string \<times> string) list"
  recommended :: "nat \<Rightarrow> bool"

text \<open>
  How a run ends: the loop is left with a total, or the run is still going (the bound on
  the steps is reached, or an account never returns) with the total so far.
\<close>

datatype 's outcome = Finished int 's | Unfinished int

fun total_of :: "'s outcome \<Rightarrow> int" where
  "total_of (Finished cnt s) = cnt"
| "total_of (Unfinished cnt) = cnt"

text \<open>
  The \<^verbatim>\<open>for\<close> loop over a batch: every account of the batch is processed, and
  \<^verbatim>\<open>total_processed\<close> goes up by one for each.
\<close>

fun run_batch :: "('a \<Rightarrow> 's \<Rightarrow> 's option) \<Rightarrow> 'a list \<Rightarrow> int \<Rightarrow> 's \<Rightarrow> int \<times> 's option" where
  "run_batch proc [] cnt s = (cnt, Some s)"
| "run_batch proc (a # as) cnt s =
     (case proc a s of
        None \<Rightarrow> (cnt, None)
      | Some s' \<Rightarrow> run_batch proc as (cnt + 1) s')"

text \<open>
  The \<^verbatim>\<open>while total_processed < max_accounts\<close> loop, \<open>proc\<close> being what happens for one
  account and \<open>upd\<close> the update of the priorities. The bound is checked before a batch
  is pulled, not inside the batch.
\<close>

fun start_loop ::
  "nat \<Rightarrow> ('a \<Rightarrow> 's \<Rightarrow> 's option) \<Rightarrow> ('s \<Rightarrow> 's) \<Rightarrow> (nat \<Rightarrow> int \<Rightarrow> 'a list) \<Rightarrow> (nat \<Rightarrow> bool) \<Rightarrow>
   int \<Rightarrow> nat \<Rightarrow> int \<Rightarrow> 's \<Rightarrow> 's outcome" where
  "start_loop 0 proc upd pull rec max_accounts k cnt s = Unfinished cnt"
| "start_loop (Suc n) proc upd pull rec max_accounts k cnt s =
     (if cnt < max_accounts
      then (case pull k (min 10 max_accounts) of
              [] \<Rightarrow> if rec k then start_loop n proc upd pull rec max_accounts (Suc k) cnt s
                    else Finished cnt s
            | a # as \<Rightarrow>
                (case run_batch proc (a # as) cnt s of
                   (cnt', None) \<Rightarrow> Unfinished cnt'
                 | (cnt', Some s') \<Rightarrow>
                     start_loop n proc upd pull rec max_accounts (Suc k) cnt'
                       (if cnt' mod 50 = 0 then upd s' else s')))
      else Finished cnt s)"

text \<open>
  One account of a batch: \<^verbatim>\<open>_process_account\<close>, then a sleep of the delay times a random
  factor between 0.8 and 1.2.
\<close>

definition process_and_wait ::
  "nat \<Rightarrow> env \<Rightarrow> string \<times> string \<Rightarrow> client \<times> world \<Rightarrow> (client \<times> world) option" where
  "process_and_wait m e a s =
     (case process_account m e (fst a) (snd a) (fst s) (snd s) of
        None \<Rightarrow> None
      | Some (c, w) \<Rightarrow>
          (case draw e w of (r, w') \<Rightarrow> Some (c, sleep (env_delay e * (0.8 + 0.4 * r)) w')))"

text \<open>\<^verbatim>\<open>_update_account_priorities\<close>: one call to the store, exceptions caught.\<close>

definition update_account_priorities :: "env \<Rightarrow> client \<times> world \<Rightarrow> client \<times> world" where
  "update_account_priorities e s = (fst s, snd (store_rpc e Update_Priorities (snd s)))"

text \<open>
  \<^verbatim>\<open>start(seed_handles, max_accounts, min_interval_days)\<close> without seeds: \<open>n\<close> bounds the
  turns of the loop, \<open>m\<close> the requests of one \<^verbatim>\<open>_collect_all_follows\<close>.
\<close>

definition start :: "nat \<Rightarrow> nat \<Rightarrow> env \<Rightarrow> queue \<Rightarrow> int \<Rightarrow> client \<times> world \<Rightarrow> (client \<times> world) outcome" where
  "start n m e q max_accounts s =
     start_loop n (process_and_wait m e) (update_account_priorities e)
       (next_accounts q) (recommended q) max_accounts 0 0 s"

text \<open>
  A queue that hands out nine accounts at the first pull, ten at the second and none
  after that, and has no recommended accounts to add.
\<close>

definition queue10 :: queue where
  "queue10 =
     \<lparr>next_accounts = (\<lambda>k limit. if k = 0 then replicate 9 (''did:plc:missing'', ''missing.example'')
                                   else if k = 1 then replicate 10 (''did:plc:missing'', ''missing.example'')
                                   else []),
      recommended = (\<lambda>k. False)\<rparr>"

text \<open>
  A complete enumeration: following the cursors from the first request, every request is
  answered with a page, up to a page without a cursor, within \<open>n\<close> requests. The result
  is the list of the pages served; \<open>None\<close> when a request fails on the way or the count
  is used up.
\<close>

fun follow_pages ::
  "nat \<Rightarrow> (string option \<Rightarrow> page_reply) \<Rightarrow> string option \<Rightarrow> string option list list option" where
  "follow_pages 0 srv cursor = None"
| "follow_pages (Suc n) srv cursor =
     (case srv (if truthy cursor then cursor else None) of
        Page fs cursor' \<Rightarrow>
          if truthy cursor' then map_option ((#) fs) (follow_pages n srv cursor')
          else Some [fs]
      | Bad_Status \<Rightarrow> None
      | Raised \<Rightarrow> None)"

text \<open>The follow-set the pages of a complete enumeration hold.\<close>

definition complete_follow_set :: "string option list list \<Rightarrow> string set" where
  "complete_follow_set pages = set (concat (map page_dids pages))"


text \<open>
  A server that grants every session with the token \<^verbatim>\<open>jwt2\<close>, in half a second, and answers
  every other request with an empty page.
\<close>

definition server_grants :: server where
  "server_grants n rq =
     (if req_endpoint rq = Create_Session then (1 / 2, Reply 200 (Session (Some ''jwt2'')) [])
      else (1 / 4, Reply 200 (Actors [] None) []))"

text \<open>
  A server that serves the follows \<^verbatim>\<open>did:b\<close>, \<^verbatim>\<open>did:c\<close> and \<^verbatim>\<open>did:d\<close> on two pages, the second
  under the cursor \<^verbatim>\<open>p2\<close>.
\<close>

definition srv_two :: "string option \<Rightarrow> page_reply" where
  "srv_two c = (if c = Some ''p2'' then Page [Some ''did:d''] None
                else Page [Some ''did:b'', Some ''did:c''] (Some ''p2''))"

section \<open>Properties of the follows table\<close>

lemma fold_max_ge: "x \<in> set xs \<Longrightarrow> x \<le> fold max xs (m::nat)"
proof (induction xs arbitrary: m)
  case Nil
  then show ?case by simp
next
  case (Cons y ys)
  have mono: "\<And>zs a. (a::nat) \<le> fold max zs a"
  proof -
    fix zs :: "nat list" and a :: nat
    show "a \<le> fold max zs a"
    proof (induction zs arbitrary: a)
      case Nil
      show ?case by simp
    next
      case (Cons z zs)
      have "max z a \<le> fold max zs (max z a)" by (rule Cons.IH)
      then show ?case by simp
    qed
  qed
  show ?case
  proof (cases "x = y")
    case True
    have "max y m \<le> fold max ys (max y m)" by (rule mono)
    with True show ?thesis by simp
  next
    case False
    with Cons.prems have "x \<in> set ys" by simp
    then show ?thesis using Cons.IH by simp
  qed
qed

lemma fresh_id_fresh: "r \<in> set db \<Longrightarrow> row_id r < fresh_id db"
  unfolding fresh_id_def using fold_max_ge [of "row_id r" "map row_id db" 0]
  by (simp add: less_Suc_eq_le)

lemma update_unfollowed_retire:
  "update_unfollowed now i db = map (\<lambda>r. if row_id r = i then retire now r else r) db"
  by (simp add: update_unfollowed_def retire_def)

lemma fold_update_ids:
  "fold (\<lambda>d t. case m d of Some i \<Rightarrow> update_unfollowed now i t | None \<Rightarrow> t) ds t =
   map (\<lambda>r. if (\<exists>d \<in> set ds. m d = Some (row_id r)) then retire now r else r) t"
proof (induction ds arbitrary: t)
  case Nil
  show ?case by simp
next
  case (Cons d ds)
  show ?case
  proof (cases "m d")
    case None
    then show ?thesis using Cons.IH [of t] by simp
  next
    case (Some i)
    have "fold (\<lambda>d t. case m d of Some i \<Rightarrow> update_unfollowed now i t | None \<Rightarrow> t) (d # ds) t =
          map (\<lambda>r. if (\<exists>d \<in> set ds. m d = Some (row_id r)) then retire now r else r)
            (update_unfollowed now i t)"
      using Some Cons.IH [of "update_unfollowed now i t"] by simp
    also have "\<dots> = map (\<lambda>r. if (\<exists>d \<in> set (d # ds). m d = Some (row_id r)) then retire now r else r) t"
      using Some by (auto simp: update_unfollowed_retire retire_def)
    finally show ?thesis .
  qed
qed

lemma db_follows_of_Some:
  "db_follows_of rows d = Some i \<Longrightarrow> \<exists>r \<in> set rows. following_did r = d \<and> row_id r = i"
  unfolding db_follows_of_def by (auto dest!: map_of_SomeD)

lemma db_follows_of_key:
  "r \<in> set rows \<Longrightarrow> \<exists>i. db_follows_of rows (following_did r) = Some i"
proof -
  assume "r \<in> set rows"
  then have "following_did r \<in> fst ` set (rev (map (\<lambda>r. (following_did r, row_id r)) rows))"
    by force
  then have "map_of (rev (map (\<lambda>r. (following_did r, row_id r)) rows)) (following_did r) \<noteq> None"
    by (simp only: map_of_eq_None_iff not_not)
  then show ?thesis by (auto simp: db_follows_of_def)
qed

lemma mark_unfollows_eq:
  assumes ids: "distinct (map row_id db)" and pairs: "distinct (map edge_pair db)"
  shows "mark_unfollows now did F db =
         map (\<lambda>r. if follower_did r = did \<and> follow_status r = Active \<and> following_did r \<notin> F
                  then retire now r else r) db"
proof -
  let ?A = "select_active did db"
  let ?m = "db_follows_of ?A"
  have key: "(\<exists>d \<in> set (unfollowed_dids did F db). ?m d = Some (row_id r)) \<longleftrightarrow>
             (follower_did r = did \<and> follow_status r = Active \<and> following_did r \<notin> F)"
    if r: "r \<in> set db" for r
  proof
    assume "\<exists>d \<in> set (unfollowed_dids did F db). ?m d = Some (row_id r)"
    then obtain d where d: "d \<notin> F" and md: "?m d = Some (row_id r)"
      by (auto simp: unfollowed_dids_def)
    from db_follows_of_Some [OF md] obtain r' where r': "r' \<in> set ?A" "following_did r' = d" "row_id r' = row_id r"
      by auto
    then have "r' \<in> set db" by (simp add: select_active_def)
    with r r'(3) ids have "r' = r" by (metis distinct_map inj_onD)
    with r' d show "follower_did r = did \<and> follow_status r = Active \<and> following_did r \<notin> F"
      by (simp add: select_active_def)
  next
    assume a: "follower_did r = did \<and> follow_status r = Active \<and> following_did r \<notin> F"
    with r have rA: "r \<in> set ?A" by (simp add: select_active_def)
    from db_follows_of_key [OF rA] obtain i where i: "?m (following_did r) = Some i" by auto
    from db_follows_of_Some [OF i] obtain r' where r': "r' \<in> set ?A" "following_did r' = following_did r" "row_id r' = i"
      by auto
    then have "r' \<in> set db" "follower_did r' = did" by (simp_all add: select_active_def)
    with a r'(2) have "edge_pair r' = edge_pair r" by (simp add: edge_pair_def)
    with \<open>r' \<in> set db\<close> r pairs have "r' = r" by (metis distinct_map inj_onD)
    with r'(3) i have "?m (following_did r) = Some (row_id r)" by simp
    moreover have "following_did r \<in> set (unfollowed_dids did F db)"
      using rA a by (auto simp: unfollowed_dids_def)
    ultimately show "\<exists>d \<in> set (unfollowed_dids did F db). ?m d = Some (row_id r)" by blast
  qed
  show ?thesis
    unfolding mark_unfollows_def fold_update_ids
    by (rule map_cong) (auto simp: key)
qed

lemma select_pair_edge: "select_pair a b db = filter (\<lambda>r. edge_pair r = (a, b)) db"
  by (simp add: select_pair_def edge_pair_def)

lemma select_pair_empty_iff: "select_pair a b db = [] \<longleftrightarrow> (a, b) \<notin> set (map edge_pair db)"
  by (force simp: select_pair_edge filter_empty_conv)

lemma at_most_one_row:
  "distinct (map edge_pair db) \<Longrightarrow> length (select_pair a b db) \<le> 1"
proof (induction db)
  case Nil
  show ?case by (simp add: select_pair_def)
next
  case (Cons r db)
  show ?case
  proof (cases "edge_pair r = (a, b)")
    case True
    with Cons.prems have "(a, b) \<notin> set (map edge_pair db)" by auto
    then have "select_pair a b db = []" using select_pair_empty_iff [of a b db] by simp
    then have "filter (\<lambda>r. edge_pair r = (a, b)) db = []" by (simp only: select_pair_edge)
    with True show ?thesis by (simp add: select_pair_edge)
  next
    case False
    with Cons show ?thesis by (simp add: select_pair_edge)
  qed
qed

lemma pairs_insert_follow:
  "map edge_pair (insert_follow a b ca lv db) = map edge_pair db @ [(a, b)]"
  by (simp add: insert_follow_def new_row_def edge_pair_def)

lemma pairs_touch_row: "map edge_pair (touch_row now i db) = map edge_pair db"
  by (simp add: touch_row_def edge_pair_def)

lemma pairs_update_unfollowed: "map edge_pair (update_unfollowed now i db) = map edge_pair db"
  by (simp add: update_unfollowed_def edge_pair_def)

lemma pairs_mark_unfollows: "map edge_pair (mark_unfollows now did F db) = map edge_pair db"
  unfolding mark_unfollows_def fold_update_ids
  by (simp add: retire_def edge_pair_def)

lemma distinct_pairs_add:
  assumes "distinct (map edge_pair db)"
  shows "distinct (map edge_pair (fst (add_follow_relationship a b db)))"
proof (cases "select_pair a b db")
  case Nil
  then have "(a, b) \<notin> set (map edge_pair db)" using select_pair_empty_iff [of a b db] by simp
  with assms Nil show ?thesis
    by (simp add: add_follow_relationship_def pairs_insert_follow)
next
  case (Cons r rs)
  with assms show ?thesis by (simp add: add_follow_relationship_def)
qed

lemma distinct_pairs_store:
  assumes "distinct (map edge_pair db)"
  shows "distinct (map edge_pair (store_follow now a b db))"
proof (cases "select_pair a b db")
  case Nil
  then have "(a, b) \<notin> set (map edge_pair db)" using select_pair_empty_iff [of a b db] by simp
  with assms Nil show ?thesis
    by (simp add: store_follow_def pairs_insert_follow)
next
  case (Cons r rs)
  with assms show ?thesis by (simp add: store_follow_def pairs_touch_row)
qed

lemma distinct_pairs_fold_add:
  "distinct (map edge_pair db) \<Longrightarrow>
   distinct (map edge_pair (fold (\<lambda>f t. fst (add_follow_relationship (g f) (h f) t)) fs db))"
  by (induction fs arbitrary: db) (simp_all add: distinct_pairs_add)

lemma distinct_pairs_crawl:
  "distinct (map edge_pair db) \<Longrightarrow> distinct (map edge_pair (crawl_follows did fs gs db))"
  unfolding crawl_follows_def
  using distinct_pairs_fold_add [where g = "\<lambda>f. f" and h = "\<lambda>f. did"]
        distinct_pairs_fold_add [where g = "\<lambda>f. did" and h = "\<lambda>f. f"]
  by simp

lemma distinct_pairs_apply_op:
  "distinct (map edge_pair db) \<Longrightarrow> distinct (map edge_pair (apply_op x db))"
  by (cases x) (simp_all add: distinct_pairs_add distinct_pairs_store distinct_pairs_crawl
      pairs_mark_unfollows)

lemma distinct_pairs_run_ops:
  "distinct (map edge_pair db) \<Longrightarrow> distinct (map edge_pair (run_ops ops db))"
  unfolding run_ops_def
  by (induction ops arbitrary: db) (simp_all add: distinct_pairs_apply_op)

lemma add_existing:
  "select_pair a b db \<noteq> [] \<Longrightarrow>
   add_follow_relationship a b db = (db, Some (hd (select_pair a b db)))"
  by (cases "select_pair a b db") (simp_all add: add_follow_relationship_def)


lemma keeps_refl: "keeps db db"
  by (simp add: keeps_def)

lemma keeps_trans: "keeps db db' \<Longrightarrow> keeps db' db'' \<Longrightarrow> keeps db db''"
  unfolding keeps_def by (metis (no_types, lifting) le_trans less_le_trans)

lemma keeps_append: "keeps db (db @ rs)"
  by (simp add: keeps_def nth_append)

lemma keeps_map:
  assumes "\<And>r. row_id (f r) = row_id r \<and> edge_pair (f r) = edge_pair r \<and>
      (follow_status r = Unfollowed \<longrightarrow> follow_status (f r) = Unfollowed) \<and>
      (unfollowed_at r \<noteq> None \<longrightarrow> unfollowed_at (f r) \<noteq> None)"
  shows "keeps db (map f db)"
  using assms by (simp add: keeps_def)

lemma keeps_add: "keeps db (fst (add_follow_relationship a b db))"
  by (cases "select_pair a b db")
     (simp_all add: add_follow_relationship_def insert_follow_def keeps_refl keeps_append)

lemma keeps_store: "keeps db (store_follow now a b db)"
proof (cases "select_pair a b db")
  case Nil
  then show ?thesis by (simp add: store_follow_def insert_follow_def keeps_append)
next
  case (Cons r rs)
  have "keeps db (touch_row now (row_id r) db)"
    unfolding touch_row_def by (rule keeps_map) (simp add: edge_pair_def)
  with Cons show ?thesis by (simp add: store_follow_def)
qed

lemma keeps_fold_add:
  "keeps db (fold (\<lambda>f t. fst (add_follow_relationship (g f) (h f) t)) fs db)"
proof (induction fs arbitrary: db)
  case Nil
  show ?case by (simp add: keeps_refl)
next
  case (Cons f fs)
  have "keeps db (fst (add_follow_relationship (g f) (h f) db))" by (rule keeps_add)
  then show ?case using Cons.IH keeps_trans by fastforce
qed

lemma keeps_crawl: "keeps db (crawl_follows did fs gs db)"
  unfolding crawl_follows_def
  using keeps_fold_add [where g = "\<lambda>f. f" and h = "\<lambda>f. did"]
        keeps_fold_add [where g = "\<lambda>f. did" and h = "\<lambda>f. f"]
        keeps_trans
  by blast

lemma keeps_mark: "keeps db (mark_unfollows now did F db)"
  unfolding mark_unfollows_def fold_update_ids
  by (rule keeps_map) (simp add: retire_def edge_pair_def)

lemma keeps_apply_op: "keeps db (apply_op x db)"
  by (cases x) (simp_all add: keeps_add keeps_store keeps_crawl keeps_mark)

lemma keeps_run_ops: "keeps db (run_ops ops db)"
  unfolding run_ops_def
proof (induction ops arbitrary: db)
  case Nil
  show ?case by (simp add: keeps_refl)
next
  case (Cons x xs)
  have "keeps db (apply_op x db)" by (rule keeps_apply_op)
  moreover have "keeps (apply_op x db) (fold apply_op xs (apply_op x db))" by (rule Cons.IH)
  ultimately show ?case using keeps_trans by fastforce
qed

lemma ids_touch_row: "map row_id (touch_row now i db) = map row_id db"
  by (simp add: touch_row_def)

lemma ids_mark_unfollows: "map row_id (mark_unfollows now did F db) = map row_id db"
  unfolding mark_unfollows_def fold_update_ids by (simp add: retire_def)

lemma distinct_ids_insert:
  "distinct (map row_id db) \<Longrightarrow> distinct (map row_id (insert_follow a b ca lv db))"
  using fresh_id_fresh [of _ db] by (fastforce simp: insert_follow_def new_row_def)

lemma distinct_ids_add:
  "distinct (map row_id db) \<Longrightarrow> distinct (map row_id (fst (add_follow_relationship a b db)))"
  by (cases "select_pair a b db") (simp_all add: add_follow_relationship_def distinct_ids_insert)

lemma distinct_ids_fold_add:
  "distinct (map row_id db) \<Longrightarrow>
   distinct (map row_id (fold (\<lambda>f t. fst (add_follow_relationship (g f) (h f) t)) fs db))"
  by (induction fs arbitrary: db) (simp_all add: distinct_ids_add)

lemma distinct_ids_crawl:
  "distinct (map row_id db) \<Longrightarrow> distinct (map row_id (crawl_follows did fs gs db))"
  unfolding crawl_follows_def
  using distinct_ids_fold_add [where g = "\<lambda>f. f" and h = "\<lambda>f. did"]
        distinct_ids_fold_add [where g = "\<lambda>f. did" and h = "\<lambda>f. f"]
  by simp

lemma unfollowed_count:
  "length (unfollowed_dids did F db) = card (active_follows did db - F)"
proof -
  have "distinct (unfollowed_dids did F db)"
    by (simp add: unfollowed_dids_def)
  moreover have "set (unfollowed_dids did F db) = active_follows did db - F"
    by (auto simp: unfollowed_dids_def active_follows_def)
  ultimately show ?thesis using distinct_card [of "unfollowed_dids did F db"] by simp
qed

lemma active_follows_mark:
  assumes "distinct (map row_id db)" and "distinct (map edge_pair db)"
  shows "active_follows did (mark_unfollows now did F db) = active_follows did db \<inter> F"
proof -
  have "set (map following_did (select_active did (map (\<lambda>r. if follower_did r = did \<and> follow_status r = Active \<and> following_did r \<notin> F
                  then retire now r else r) db))) = set (map following_did (select_active did db)) \<inter> F"
    by (induction db) (auto simp: select_active_def retire_def)
  then show ?thesis
    by (simp only: mark_unfollows_eq [OF assms] active_follows_def)
qed

lemma db0_distinct: "distinct (map row_id db0)" "distinct (map edge_pair db0)"
  by (simp_all add: db0_def new_row_def edge_pair_def)

lemma srv0_follows: "get_all_follows 1 srv0 = Some {''did:b'', ''did:c'', ''did:d''}"
  by (simp add: get_all_follows_def srv0_def page_dids_def)

lemma db0_active: "active_follows ''did:x'' db0 = {''did:a'', ''did:b'', ''did:c''}"
  by (simp add: active_follows_def select_active_def db0_def new_row_def)

subsection \<open>At most one row for a pair\<close>

text \<open>
  Claim C3. From a table with at most one row for each ordered pair, every run of the
  writers of the table (\<^verbatim>\<open>add_follow_relationship\<close>, \<^verbatim>\<open>_store_follow\<close>, \<^verbatim>\<open>crawl\<close>, the
  unfollow detector) ends in a table with at most one row for each pair \<open>(a, b)\<close>; and
  \<^verbatim>\<open>add_follow_relationship\<close> for a pair that has a row returns the table as it was,
  with the row that was there.
\<close>

theorem no_duplicate_edges:
  assumes "distinct (map edge_pair db)"
  shows "length (select_pair a b (run_ops ops db)) \<le> 1 \<and>
         (select_pair a b db \<noteq> [] \<longrightarrow>
            add_follow_relationship a b db = (db, Some (hd (select_pair a b db))))"
proof -
  have "distinct (map edge_pair (run_ops ops db))"
    using assms by (rule distinct_pairs_run_ops)
  then have "length (select_pair a b (run_ops ops db)) \<le> 1" by (rule at_most_one_row)
  then show ?thesis by (simp add: add_existing)
qed

theorem no_duplicate_edges_witness:
  "distinct (map edge_pair db0) \<and>
   length (select_pair ''did:x'' ''did:a'' (run_ops ops1 db0)) \<le> 1 \<and>
   select_pair ''did:x'' ''did:a'' db0 \<noteq> [] \<and>
   add_follow_relationship ''did:x'' ''did:a'' db0 =
     (db0, Some (new_row 1 ''did:x'' ''did:a'' None None))"
proof -
  note t = no_duplicate_edges [OF db0_distinct(2), of "''did:x''" "''did:a''" ops1]
  have s: "select_pair ''did:x'' ''did:a'' db0 = [new_row 1 ''did:x'' ''did:a'' None None]"
    by (simp add: select_pair_def db0_def new_row_def)
  from t have a: "length (select_pair ''did:x'' ''did:a'' (run_ops ops1 db0)) \<le> 1" by blast
  from t s have b: "add_follow_relationship ''did:x'' ''did:a'' db0 =
     (db0, Some (new_row 1 ''did:x'' ''did:a'' None None))" by simp
  from s have c: "select_pair ''did:x'' ''did:a'' db0 \<noteq> []" by simp
  show ?thesis by (rule conjI [OF db0_distinct(2) conjI [OF a conjI [OF c b]]])
qed

subsection \<open>An unfollowed edge stays unfollowed\<close>

text \<open>
  Claim C4. A row that is unfollowed stays in the table through every run of the
  writers of the table, at its place, with its key and its pair, and is unfollowed
  afterwards; when \<^verbatim>\<open>unfollowed_at\<close> was set, it is still set. No writer turns
  \<^verbatim>\<open>follow_status\<close> back to active: \<^verbatim>\<open>add_follow_relationship\<close> returns the row that is
  there, \<^verbatim>\<open>_store_follow\<close> writes \<^verbatim>\<open>last_verified_at\<close> only, the detector writes
  \<^verbatim>\<open>unfollowed\<close> only.
\<close>

theorem unfollowed_stays_unfollowed:
  assumes "i < length db" and "follow_status (db ! i) = Unfollowed"
  shows "i < length (run_ops ops db) \<and>
         row_id (run_ops ops db ! i) = row_id (db ! i) \<and>
         edge_pair (run_ops ops db ! i) = edge_pair (db ! i) \<and>
         follow_status (run_ops ops db ! i) = Unfollowed \<and>
         (unfollowed_at (db ! i) \<noteq> None \<longrightarrow> unfollowed_at (run_ops ops db ! i) \<noteq> None)"
  using assms keeps_run_ops [of db ops] unfolding keeps_def by auto

theorem unfollowed_stays_unfollowed_witness:
  "0 < length db1 \<and> follow_status (db1 ! 0) = Unfollowed \<and> unfollowed_at (db1 ! 0) = Some 5 \<and>
   0 < length (run_ops ops1 db1) \<and>
   edge_pair (run_ops ops1 db1 ! 0) = (''did:x'', ''did:a'') \<and>
   follow_status (run_ops ops1 db1 ! 0) = Unfollowed \<and>
   unfollowed_at (run_ops ops1 db1 ! 0) \<noteq> None"
proof -
  have h1: "0 < length db1" by (simp add: db1_def)
  have h2: "follow_status (db1 ! 0) = Unfollowed" by (simp add: db1_def retire_def)
  have h3: "unfollowed_at (db1 ! 0) = Some 5" by (simp add: db1_def retire_def)
  have h4: "edge_pair (db1 ! 0) = (''did:x'', ''did:a'')"
    by (simp add: db1_def retire_def new_row_def edge_pair_def)
  note t = unfollowed_stays_unfollowed [OF h1 h2, of ops1]
  from t h3 h4 show ?thesis using h1 h2 by simp
qed

lemma pairs_add_set:
  "set (map edge_pair (fst (add_follow_relationship a b db))) = insert (a, b) (set (map edge_pair db))"
proof (cases "select_pair a b db")
  case Nil
  then show ?thesis by (simp add: add_follow_relationship_def pairs_insert_follow)
next
  case (Cons r rs)
  then have "select_pair a b db \<noteq> []" by simp
  then have "(a, b) \<in> set (map edge_pair db)" using select_pair_empty_iff [of a b db] by simp
  with Cons show ?thesis by (auto simp: add_follow_relationship_def)
qed

lemma pairs_fold_add_set:
  "set (map edge_pair (fold (\<lambda>f t. fst (add_follow_relationship (g f) (h f) t)) fs db)) =
   set (map edge_pair db) \<union> (\<lambda>f. (g f, h f)) ` set fs"
proof (induction fs arbitrary: db)
  case Nil
  show ?case by simp
next
  case (Cons f fs)
  show ?case using Cons.IH [of "fst (add_follow_relationship (g f) (h f) db)"]
    by (simp add: pairs_add_set del: set_map)
qed

lemma add_present:
  "(a, b) \<in> set (map edge_pair db) \<Longrightarrow> fst (add_follow_relationship a b db) = db"
  using select_pair_empty_iff [of a b db]
  by (cases "select_pair a b db") (simp_all add: add_follow_relationship_def)

lemma fold_add_present:
  "(\<lambda>f. (g f, h f)) ` set fs \<subseteq> set (map edge_pair db) \<Longrightarrow>
   fold (\<lambda>f t. fst (add_follow_relationship (g f) (h f) t)) fs db = db"
  by (induction fs) (simp_all add: add_present del: set_map)

lemma crawl_present:
  assumes "(\<lambda>f. (did, f)) ` set fs \<subseteq> set (map edge_pair db)"
    and "(\<lambda>f. (f, did)) ` set gs \<subseteq> set (map edge_pair db)"
  shows "crawl_follows did fs gs db = db"
  unfolding crawl_follows_def
  using fold_add_present [where g = "\<lambda>f. did" and h = "\<lambda>f. f", OF assms(1)]
        fold_add_present [where g = "\<lambda>f. f" and h = "\<lambda>f. did", OF assms(2)]
  by simp

lemma pairs_crawl_set:
  "set (map edge_pair (crawl_follows did fs gs db)) =
   set (map edge_pair db) \<union> (\<lambda>f. (did, f)) ` set fs \<union> (\<lambda>f. (f, did)) ` set gs"
  unfolding crawl_follows_def
  by (simp only: pairs_fold_add_set [where g = "\<lambda>f. f" and h = "\<lambda>f. did"]
      pairs_fold_add_set [where g = "\<lambda>f. did" and h = "\<lambda>f. f"])

lemma unfollowed_dids_empty_iff:
  "unfollowed_dids did F db = [] \<longleftrightarrow> active_follows did db \<subseteq> F"
proof -
  have "set (unfollowed_dids did F db) = active_follows did db - F"
    by (auto simp: unfollowed_dids_def active_follows_def)
  then show ?thesis by (metis Diff_eq_empty_iff set_empty)
qed

lemma nothing_left_to_mark:
  assumes "distinct (map row_id db)" and "distinct (map edge_pair db)"
  shows "unfollowed_dids did F (mark_unfollows now did F db) = []"
  unfolding unfollowed_dids_empty_iff active_follows_mark [OF assms] by simp

lemma mark_nothing: "unfollowed_dids did F db = [] \<Longrightarrow> mark_unfollows now did F db = db"
  by (simp add: mark_unfollows_def)

lemma crawl_then_detect_twice:
  assumes ids: "distinct (map row_id db)" and pairs: "distinct (map edge_pair db)"
    and t1: "t1 = run_ops [Crawl did fs gs, Detect now did (set fs)] db"
  shows "crawl_follows did fs gs t1 = t1"
    and "unfollowed_dids did (set fs) t1 = []"
    and "run_ops [Crawl did fs gs, Detect now' did (set fs)] t1 = t1"
proof -
  let ?c = "crawl_follows did fs gs db"
  have t1': "t1 = mark_unfollows now did (set fs) ?c"
    by (simp add: t1 run_ops_def)
  have "set (map edge_pair t1) = set (map edge_pair ?c)"
    by (simp only: t1' pairs_mark_unfollows)
  then have p: "set (map edge_pair t1) =
      set (map edge_pair db) \<union> (\<lambda>f. (did, f)) ` set fs \<union> (\<lambda>f. (f, did)) ` set gs"
    by (simp only: pairs_crawl_set)
  show c: "crawl_follows did fs gs t1 = t1"
    by (rule crawl_present) (simp_all only: p, blast+)
  have "distinct (map row_id ?c)" using ids by (rule distinct_ids_crawl)
  moreover have "distinct (map edge_pair ?c)" using pairs by (rule distinct_pairs_crawl)
  ultimately show u: "unfollowed_dids did (set fs) t1 = []"
    unfolding t1' by (rule nothing_left_to_mark)
  show "run_ops [Crawl did fs gs, Detect now' did (set fs)] t1 = t1"
    by (simp add: run_ops_def c mark_nothing [OF u])
qed

lemma forget_touch_row: "map forget_verified (touch_row now i db) = map forget_verified db"
  by (simp add: touch_row_def forget_verified_def)

lemma store_present:
  assumes "(a, b) \<in> set (map edge_pair db)"
  shows "map forget_verified (store_follow now a b db) = map forget_verified db"
    and "map edge_pair (store_follow now a b db) = map edge_pair db"
proof -
  from assms have "select_pair a b db \<noteq> []" using select_pair_empty_iff [of a b db] by simp
  then obtain r rs where "select_pair a b db = r # rs" by (cases "select_pair a b db") auto
  then have "store_follow now a b db = touch_row now (row_id r) db" by (simp add: store_follow_def)
  then show "map forget_verified (store_follow now a b db) = map forget_verified db"
    and "map edge_pair (store_follow now a b db) = map edge_pair db"
    by (simp_all only: forget_touch_row pairs_touch_row)
qed

lemma pairs_store_set:
  "set (map edge_pair (store_follow now a b db)) = insert (a, b) (set (map edge_pair db))"
proof (cases "(a, b) \<in> set (map edge_pair db)")
  case True
  then show ?thesis by (simp only: store_present(2)) blast
next
  case False
  then have "select_pair a b db = []" using select_pair_empty_iff [of a b db] by simp
  then show ?thesis by (simp add: store_follow_def pairs_insert_follow)
qed

lemma distinct_ids_store:
  "distinct (map row_id db) \<Longrightarrow> distinct (map row_id (store_follow now a b db))"
  by (cases "select_pair a b db")
     (simp_all add: store_follow_def distinct_ids_insert ids_touch_row)

lemma run_store_follows:
  "run_ops (map (Store_Follow now did) fs @ ops) db =
   run_ops ops (fold (\<lambda>f. store_follow now did f) fs db)"
  unfolding run_ops_def by (induction fs arbitrary: db) simp_all

lemma fold_store_distinct:
  "distinct (map row_id db) \<Longrightarrow> distinct (map edge_pair db) \<Longrightarrow>
   distinct (map row_id (fold (\<lambda>f. store_follow now did f) fs db)) \<and>
   distinct (map edge_pair (fold (\<lambda>f. store_follow now did f) fs db))"
  by (induction fs arbitrary: db) (simp_all add: distinct_ids_store distinct_pairs_store)

lemma fold_store_pairs:
  "set (map edge_pair (fold (\<lambda>f. store_follow now did f) fs db)) =
   set (map edge_pair db) \<union> (\<lambda>f. (did, f)) ` set fs"
proof (induction fs arbitrary: db)
  case Nil
  show ?case by simp
next
  case (Cons f fs)
  show ?case using Cons.IH [of "store_follow now did f db"]
    by (simp add: pairs_store_set del: set_map)
qed

lemma fold_store_present:
  "(\<lambda>f. (did, f)) ` set fs \<subseteq> set (map edge_pair db) \<Longrightarrow>
   map forget_verified (fold (\<lambda>f. store_follow now did f) fs db) = map forget_verified db"
proof (induction fs arbitrary: db)
  case Nil
  show ?case by simp
next
  case (Cons f fs)
  from Cons.prems have f: "(did, f) \<in> set (map edge_pair db)" by simp
  from Cons.prems have "(\<lambda>f. (did, f)) ` set fs \<subseteq> set (map edge_pair (store_follow now did f db))"
    by (simp only: store_present(2) [OF f]) simp
  then have "map forget_verified (fold (\<lambda>f. store_follow now did f) fs (store_follow now did f db)) =
             map forget_verified (store_follow now did f db)"
    by (rule Cons.IH)
  then show ?case by (simp add: store_present(1) [OF f])
qed

lemma unfollowed_dids_forget:
  assumes "map forget_verified db = map forget_verified db'"
  shows "unfollowed_dids did F db = unfollowed_dids did F db'"
proof -
  have a: "map following_did (select_active did t) =
           map following_did (select_active did (map forget_verified t))" for t
    by (induction t) (simp_all add: select_active_def forget_verified_def)
  show ?thesis unfolding unfollowed_dids_def a [of db] a [of db'] assms ..
qed

lemma store_then_detect_twice:
  assumes ids: "distinct (map row_id db)" and pairs: "distinct (map edge_pair db)"
    and t1: "t1 = run_ops (map (Store_Follow now did) fs @ [Detect now did (set fs)]) db"
    and t2: "t2 = run_ops (map (Store_Follow now' did) fs) t1"
  shows "length t2 = length t1"
    and "map forget_verified t2 = map forget_verified t1"
    and "unfollowed_dids did (set fs) t2 = []"
    and "run_ops [Detect now' did (set fs)] t2 = t2"
proof -
  let ?s = "fold (\<lambda>f. store_follow now did f) fs db"
  have t1': "t1 = mark_unfollows now did (set fs) ?s"
    unfolding t1 run_store_follows by (simp add: run_ops_def)
  have t2': "t2 = fold (\<lambda>f. store_follow now' did f) fs t1"
    using run_store_follows [of now' did fs "[]" t1] by (simp add: t2 run_ops_def)
  have "set (map edge_pair t1) = set (map edge_pair ?s)"
    by (simp only: t1' pairs_mark_unfollows)
  then have "(\<lambda>f. (did, f)) ` set fs \<subseteq> set (map edge_pair t1)"
    by (simp only: fold_store_pairs) blast
  then show f: "map forget_verified t2 = map forget_verified t1"
    unfolding t2' by (rule fold_store_present)
  then show "length t2 = length t1" by (metis length_map)
  have "unfollowed_dids did (set fs) t1 = []"
    unfolding t1' using fold_store_distinct [OF ids pairs, of now did fs]
    by (simp add: nothing_left_to_mark)
  then show u: "unfollowed_dids did (set fs) t2 = []"
    by (simp only: unfollowed_dids_forget [OF f])
  show "run_ops [Detect now' did (set fs)] t2 = t2"
    by (simp add: run_ops_def mark_nothing [OF u])
qed

subsection \<open>Running the reconciliation twice\<close>

text \<open>
  Claim C9. Let the table have distinct keys and at most one row for each pair, and let
  a run store the observed follows of a subject (\<^verbatim>\<open>crawl\<close>, which calls
  \<^verbatim>\<open>add_follow_relationship\<close>, or \<^verbatim>\<open>_store_follow\<close> for each of them) and then mark the
  unfollows against the same observed set. A second run with the same observed set
  inserts no row and marks no row: after \<^verbatim>\<open>crawl\<close> the table is the same, after
  \<^verbatim>\<open>_store_follow\<close> it is the same but for \<^verbatim>\<open>last_verified_at\<close>, and the detector finds
  no key to mark and leaves the table as it is.
\<close>

theorem reconcile_twice:
  assumes "distinct (map row_id db)" and "distinct (map edge_pair db)"
  shows "(let t1 = run_ops [Crawl did fs gs, Detect now did (set fs)] db
          in crawl_follows did fs gs t1 = t1 \<and>
             unfollowed_dids did (set fs) t1 = [] \<and>
             run_ops [Crawl did fs gs, Detect now' did (set fs)] t1 = t1) \<and>
         (let t1 = run_ops (map (Store_Follow now did) fs @ [Detect now did (set fs)]) db;
              t2 = run_ops (map (Store_Follow now' did) fs) t1
          in length t2 = length t1 \<and>
             map forget_verified t2 = map forget_verified t1 \<and>
             unfollowed_dids did (set fs) t2 = [] \<and>
             run_ops [Detect now' did (set fs)] t2 = t2)"
proof -
  define c1 where "c1 = run_ops [Crawl did fs gs, Detect now did (set fs)] db"
  define s1 where "s1 = run_ops (map (Store_Follow now did) fs @ [Detect now did (set fs)]) db"
  define s2 where "s2 = run_ops (map (Store_Follow now' did) fs) s1"
  note a = crawl_then_detect_twice [OF assms c1_def]
  note b = store_then_detect_twice [OF assms s1_def s2_def]
  from a b show ?thesis
    unfolding Let_def c1_def [symmetric] s1_def [symmetric] s2_def [symmetric] by blast
qed

theorem reconcile_twice_witness:
  "distinct (map row_id db0) \<and> distinct (map edge_pair db0) \<and>
   (let t1 = run_ops [Crawl ''did:x'' [''did:b'', ''did:c'', ''did:d''] [],
                       Detect 7 ''did:x'' (set [''did:b'', ''did:c'', ''did:d''])] db0
    in crawl_follows ''did:x'' [''did:b'', ''did:c'', ''did:d''] [] t1 = t1 \<and>
       unfollowed_dids ''did:x'' (set [''did:b'', ''did:c'', ''did:d'']) t1 = [] \<and>
       run_ops [Crawl ''did:x'' [''did:b'', ''did:c'', ''did:d''] [],
                Detect 8 ''did:x'' (set [''did:b'', ''did:c'', ''did:d''])] t1 = t1)"
  using reconcile_twice [OF db0_distinct, where did = "''did:x''"
          and fs = "[''did:b'', ''did:c'', ''did:d'']" and gs = "[]" and now = 7 and now' = 8]
        db0_distinct
  by blast

lemma sent_send: "sent (snd (send srv rq w)) = sent w @ [(clock w, rq)]"
  by (simp add: send_def split: prod.splits)



lemma limits_authenticate:
  "rate_limit_remaining (fst (authenticate srv c w)) = rate_limit_remaining c"
  "rate_limit_reset (fst (authenticate srv c w)) = rate_limit_reset c"
  by (simp_all add: authenticate_def split: prod.splits reply.splits)




subsection \<open>The token is refreshed within 300 seconds of its expiry\<close>


lemma float_overflow_small: "\<bar>n\<bar> < 2 ^ 64 \<Longrightarrow> \<not> float_overflow n"
proof -
  assume a: "\<bar>n\<bar> < 2 ^ 64"
  have "(2::int) ^ 1024 = 2 ^ 970 * 2 ^ 54" by (simp add: power_add [symmetric])
  then have "(2::int) ^ 1024 - 2 ^ 970 = 2 ^ 970 * (2 ^ 54 - 1)" by (simp add: algebra_simps)
  moreover have "(2::int) ^ 64 \<le> 2 ^ 970" by (rule power_increasing) simp_all
  moreover have "(2::int) ^ 970 * 1 \<le> 2 ^ 970 * (2 ^ 54 - 1)"
    by (rule mult_left_mono) simp_all
  ultimately have "(2::int) ^ 64 \<le> 2 ^ 1024 - 2 ^ 970" by simp
  with a show ?thesis by (simp add: float_overflow_def)
qed

lemma float_overflow_samples:
  "\<not> float_overflow 0" "\<not> float_overflow 60" "\<not> float_overflow 59"
  by (rule float_overflow_small, simp)+

lemma update_raises_nil: "\<not> update_raises []"
  by (simp add: update_raises_def)

text \<open>
  A reset value too large for a float: the remaining count is written, the reset time is
  not, and the update raises.
\<close>

lemma update_overflow:
  assumes "map_of hs ''ratelimit-limit'' \<noteq> None"
    and "header_int hs ''ratelimit-remaining'' 100 = Some remaining"
    and "header_int hs ''ratelimit-reset'' 0 = Some reset" and "float_overflow reset"
  shows "update_raises hs \<and> update_rate_limit c hs now = c\<lparr>rate_limit_remaining := remaining\<rparr>"
  using assms by (auto simp: update_raises_def update_rate_limit_def)

lemma py_int_samples:
  "py_int ''5'' = Some 5" "py_int ''4'' = Some 4" "py_int ''60'' = Some 60" "py_int ''59'' = Some 59"
  "py_int ''3000'' = Some 3000" "py_int ''soon'' = None"
  by (simp_all add: py_int_def is_space_def digit_of_def)

lemma update_low_budget:
  "update_rate_limit c low_budget now = c\<lparr>rate_limit_remaining := 5, rate_limit_reset := now + 60\<rparr>"
  by (simp add: update_rate_limit_def low_budget_def header_int_def py_int_samples
      float_overflow_samples)

lemma low_budget_no_raise: "\<not> update_raises low_budget"
  by (simp add: update_raises_def low_budget_def header_int_def py_int_samples
      float_overflow_samples)

lemma second_budget_no_raise:
  "\<not> update_raises [(''ratelimit-limit'', ''3000''), (''ratelimit-remaining'', ''4''),
                       (''ratelimit-reset'', ''59'')]"
  by (simp add: update_raises_def header_int_def py_int_samples float_overflow_samples)

lemma update_second_budget:
  "update_rate_limit c [(''ratelimit-limit'', ''3000''), (''ratelimit-remaining'', ''4''),
                        (''ratelimit-reset'', ''59'')] now =
   c\<lparr>rate_limit_remaining := 4, rate_limit_reset := now + 59\<rparr>"
  by (simp add: update_rate_limit_def header_int_def py_int_samples float_overflow_samples)

subsection \<open>The rate limit on the page requests\<close>

lemma clock_check_rate_limit:
  assumes "rate_limit_remaining c < 10"
  shows "rate_limit_reset c \<le> clock (snd (check_rate_limit srv c w))"
proof -
  obtain c1 w1 where a:
    "(if truthy (username c) \<and> truthy (password c) \<and> is_token_expired c (clock w)
      then authenticate srv c w else (c, w)) = (c1, w1)"
    by (cases "if truthy (username c) \<and> truthy (password c) \<and> is_token_expired c (clock w)
      then authenticate srv c w else (c, w)")
  have l: "rate_limit_remaining c1 = rate_limit_remaining c" "rate_limit_reset c1 = rate_limit_reset c"
    using a limits_authenticate [of srv c w] by (auto split: if_splits)
  show ?thesis
    using assms l unfolding check_rate_limit_def a
    by (auto simp: Let_def sleep_def max_def)
qed

lemma initialize_limits:
  "rate_limit_remaining (fst (initialize srv c w)) = rate_limit_remaining c"
  "rate_limit_reset (fst (initialize srv c w)) = rate_limit_reset c"
  by (simp_all add: initialize_def limits_authenticate)

text \<open>
  On the page requests the budget is respected: with fewer than 10 requests remaining,
  \<^verbatim>\<open>get_follows\<close> and \<^verbatim>\<open>get_followers\<close> send their request at the reset time or later.
\<close>

lemma page_request_after_reset:
  assumes "rate_limit_remaining c < 10"
  shows "\<exists>t rq. last (sent (snd (snd (get_page ep srv did cur c w)))) = (t, rq) \<and>
           req_endpoint rq = ep \<and> rate_limit_reset c \<le> t"
proof -
  obtain c1 w1 where i: "initialize srv c w = (c1, w1)" by (cases "initialize srv c w")
  obtain c2 w2 where k: "check_rate_limit srv c1 w1 = (c2, w2)" by (cases "check_rate_limit srv c1 w1")
  let ?rq = "\<lparr>req_endpoint = ep, req_actor = did,
                 req_cursor = (if truthy cur then cur else None), req_bearer = bearer c2\<rparr>"
  obtain rp w3 where s: "send srv ?rq w2 = (rp, w3)" by (cases "send srv ?rq w2")
  then have w3: "sent w3 = sent w2 @ [(clock w2, ?rq)]" using sent_send [of srv ?rq w2] by simp
  have "rate_limit_remaining c1 < 10" "rate_limit_reset c1 = rate_limit_reset c"
    using assms i initialize_limits [of srv c w] by simp_all
  then have t: "rate_limit_reset c \<le> clock w2"
    using clock_check_rate_limit [of c1 srv w1] k by simp
  have "sent (snd (snd (get_page ep srv did cur c w))) = sent w3"
    using i k s by (cases rp) (simp_all add: get_page_def)
  with w3 t show ?thesis by simp
qed

subsection \<open>The rate limit inside get_profile\<close>

text \<open>
  Claim C6 at \<^verbatim>\<open>get_profile\<close>. A fresh client without credentials asks for a profile at
  time 1000. The reply to \<^verbatim>\<open>describeRepo\<close> arrives at time 1000.5 and reports 5 remaining
  requests and a reset 60 seconds ahead. The request for the profile details is sent at
  time 1000.5 all the same: \<^verbatim>\<open>_get_profile_details\<close> runs before
  \<^verbatim>\<open>_update_rate_limit(response)\<close>, so its check still sees the budget of 100. The budget
  of the first reply is written last, at time 1001, over the one of the second reply.
\<close>

theorem get_profile_ignores_low_budget:
  "map fst (sent (snd (snd (get_profile server6 ''alice.example'' (init_client None None)
      (world_at 1000))))) = [1000, 1000 + 1 / 2] \<and>
   endpoints_sent (snd (snd (get_profile server6 ''alice.example'' (init_client None None)
      (world_at 1000)))) = [Describe_Repo, Get_Profile] \<and>
   fst (server6 0 \<lparr>req_endpoint = Describe_Repo, req_actor = ''alice.example'',
                     req_cursor = None, req_bearer = None\<rparr>) = 1 / 2 \<and>
   snd (server6 0 \<lparr>req_endpoint = Describe_Repo, req_actor = ''alice.example'',
                     req_cursor = None, req_bearer = None\<rparr>) =
     Reply 200 (Fields [(''did'', ''did:plc:alice''), (''handle'', ''alice.example'')]) low_budget \<and>
   rate_limit_remaining (fst (snd (get_profile server6 ''alice.example'' (init_client None None)
      (world_at 1000)))) = 5 \<and>
   rate_limit_reset (fst (snd (get_profile server6 ''alice.example'' (init_client None None)
      (world_at 1000)))) = 1061"
  by (simp add: get_profile_def get_profile_details_def initialize_def check_rate_limit_def
      send_def server6_def init_client_def world_at_def is_token_expired_def bearer_def
      fields_of_def update_low_budget update_second_budget endpoints_sent_def
      low_budget_no_raise second_budget_no_raise)

subsection \<open>Replies without rate-limit headers, and headers that do not parse\<close>

text \<open>
  Claim C7 on four replies to a fresh client (budget 100, reset time 0), read at time
  1000. Without any rate-limit header the budget stays as it was. With
  \<^verbatim>\<open>ratelimit-limit\<close> alone the remaining count is set to 100 and the reset time to now.
  With a remaining count that does not parse the handler writes 10 and now + 60, and
  nothing is raised; the next check of the rate limit then does not sleep, since it
  sleeps below 10 only.
\<close>

theorem update_rate_limit_fallbacks:
  "update_rate_limit (init_client None None) [] 1000 = init_client None None \<and>
   update_rate_limit (init_client None None) [(''content-type'', ''application/json'')] 1000 =
     init_client None None \<and>
   update_rate_limit (init_client None None) [(''ratelimit-limit'', ''3000'')] 1000 =
     (init_client None None)\<lparr>rate_limit_remaining := 100, rate_limit_reset := 1000\<rparr> \<and>
   update_rate_limit (init_client None None)
       [(''ratelimit-limit'', ''3000''), (''ratelimit-remaining'', ''soon'')] 1000 =
     (init_client None None)\<lparr>rate_limit_remaining := 10, rate_limit_reset := 1060\<rparr> \<and>
   check_rate_limit server_down
       ((init_client None None)\<lparr>rate_limit_remaining := 10, rate_limit_reset := 1060\<rparr>)
       (world_at 1000) =
     ((init_client None None)\<lparr>rate_limit_remaining := 10, rate_limit_reset := 1060\<rparr>,
      world_at 1000)"
  by (simp add: update_rate_limit_def header_int_def py_int_samples init_client_def
      check_rate_limit_def float_overflow_samples)

subsection \<open>An account without a profile\<close>

text \<open>
  Claim C8. When \<^verbatim>\<open>get_profile\<close> returns no profile, \<^verbatim>\<open>_process_account\<close> returns, whatever
  the bound on the requests: it sends no request after the profile fetch (so no page of
  follows or followers is asked for), and calls the store to mark the account failed.
  When the store accepts that call it is the only one; when the store raises, the
  handler tries to mark the account error and the function returns all the same. The
  stored procedure \<^verbatim>\<open>process_account_follows\<close> is not called.
\<close>

theorem no_profile_marks_failed:
  assumes "get_profile (env_server e) handle c w = (profile, c1, w1)"
    and "profile = None \<or> profile = Some []"
  shows "\<exists>w'. process_account n e did handle c w = Some (c1, w') \<and>
           sent w' = sent w1 \<and> clock w' = clock w1 \<and>
           calls w' = calls w1 @
             (if env_store_ok e (length (calls w1)) (Mark_Crawled did Failed)
              then [Mark_Crawled did Failed]
              else [Mark_Crawled did Failed, Mark_Crawled did Error])"
proof -
  have p: "process_account n e did handle c w =
      (case store_rpc e (Mark_Crawled did Failed) w1 of
         (True, w2) \<Rightarrow> Some (c1, w2)
       | (False, w2) \<Rightarrow> Some (c1, mark_error e did w2))"
    using assms(2) unfolding process_account_def assms(1) by simp
  show ?thesis
    unfolding p
    by (cases "env_store_ok e (length (calls w1)) (Mark_Crawled did Failed)")
       (simp_all add: store_rpc_def mark_error_def)
qed

lemma get_profile_unknown:
  "get_profile server_unknown ''missing.example'' (init_client None None) (world_at 1000) =
     (None, init_client None None,
      \<lparr>clock = 1000 + 1 / 4,
        sent = [(1000, \<lparr>req_endpoint = Describe_Repo, req_actor = ''missing.example'',
                        req_cursor = None, req_bearer = None\<rparr>)],
        calls = [], draws = 0\<rparr>)"
  by (simp add: get_profile_def initialize_def check_rate_limit_def send_def server_unknown_def
      init_client_def world_at_def bearer_def)

theorem no_profile_marks_failed_witness:
  "get_profile (env_server env8) ''missing.example'' (init_client None None) (world_at 1000) =
     (None, init_client None None,
      \<lparr>clock = 1000 + 1 / 4,
        sent = [(1000, \<lparr>req_endpoint = Describe_Repo, req_actor = ''missing.example'',
                        req_cursor = None, req_bearer = None\<rparr>)],
        calls = [], draws = 0\<rparr>) \<and>
   (\<exists>w'. process_account 0 env8 ''did:plc:missing'' ''missing.example'' (init_client None None)
            (world_at 1000) = Some (init_client None None, w') \<and>
         endpoints_sent w' = [Describe_Repo] \<and>
         calls w' = [Mark_Crawled ''did:plc:missing'' Failed])"
proof -
  let ?w1 = "\<lparr>clock = 1000 + 1 / 4,
        sent = [(1000, \<lparr>req_endpoint = Describe_Repo, req_actor = ''missing.example'',
                        req_cursor = None, req_bearer = None\<rparr>)],
        calls = [], draws = 0\<rparr>"
  have s: "env_server env8 = server_unknown" by (simp add: env8_def)
  have g: "get_profile (env_server env8) ''missing.example'' (init_client None None) (world_at 1000) =
     (None, init_client None None, ?w1)"
    unfolding s by (rule get_profile_unknown)
  have n: "(None :: (string \<times> string) list option) = None \<or> None = Some []" by simp
  from no_profile_marks_failed [OF g n, of 0 "''did:plc:missing''"]
  obtain w' where w: "process_account 0 env8 ''did:plc:missing'' ''missing.example''
      (init_client None None) (world_at 1000) = Some (init_client None None, w') \<and>
      sent w' = sent ?w1 \<and> clock w' = clock ?w1 \<and>
      calls w' = calls ?w1 @
        (if env_store_ok env8 (length (calls ?w1)) (Mark_Crawled ''did:plc:missing'' Failed)
         then [Mark_Crawled ''did:plc:missing'' Failed]
         else [Mark_Crawled ''did:plc:missing'' Failed, Mark_Crawled ''did:plc:missing'' Error])" ..
  have ok: "env_store_ok env8 (length (calls ?w1)) (Mark_Crawled ''did:plc:missing'' Failed)"
    by (simp add: env8_def)
  from w have a: "process_account 0 env8 ''did:plc:missing'' ''missing.example''
      (init_client None None) (world_at 1000) = Some (init_client None None, w')" by (rule conjunct1)
  from w have "sent w' = sent ?w1" by (simp only:)
  then have b: "endpoints_sent w' = [Describe_Repo]" by (simp add: endpoints_sent_def)
  from w have "calls w' = calls ?w1 @
        (if env_store_ok env8 (length (calls ?w1)) (Mark_Crawled ''did:plc:missing'' Failed)
         then [Mark_Crawled ''did:plc:missing'' Failed]
         else [Mark_Crawled ''did:plc:missing'' Failed, Mark_Crawled ''did:plc:missing'' Error])"
    by (simp only:)
  then have c: "calls w' = [Mark_Crawled ''did:plc:missing'' Failed]"
    unfolding if_P [OF ok] by simp
  have "\<exists>w'. process_account 0 env8 ''did:plc:missing'' ''missing.example'' (init_client None None)
            (world_at 1000) = Some (init_client None None, w') \<and>
         endpoints_sent w' = [Describe_Repo] \<and>
         calls w' = [Mark_Crawled ''did:plc:missing'' Failed]"
    using a b c by (intro exI [of _ w'] conjI)
  with g show ?thesis by (rule conjI)
qed

lemma update_no_headers: "update_rate_limit c [] now = c"
  by (simp add: update_rate_limit_def)

lemma check_fresh: "check_rate_limit srv (init_client None None) w = (init_client None None, w)"
  by (simp add: check_rate_limit_def init_client_def)

lemma initialize_fresh: "initialize srv (init_client None None) w = (init_client None None, w)"
  by (simp add: initialize_def init_client_def)

lemma bearer_fresh: "bearer (init_client None None) = None"
  by (simp add: bearer_def init_client_def)

lemma get_profile_x:
  "get_profile server2 ''x.example'' (init_client None None) (world_at 1000) =
     (Some [(''displayName'', ''X''), (''did'', ''did:x''), (''handle'', ''x.example'')],
      init_client None None,
      \<lparr>clock = 1000 + 1 / 2,
        sent = [(1000, \<lparr>req_endpoint = Describe_Repo, req_actor = ''x.example'',
                        req_cursor = None, req_bearer = None\<rparr>),
                (1000 + 1 / 4, \<lparr>req_endpoint = Get_Profile, req_actor = ''did:x'',
                        req_cursor = None, req_bearer = None\<rparr>)],
        calls = [], draws = 0\<rparr>)"
  by (simp add: get_profile_def get_profile_details_def initialize_fresh check_fresh bearer_fresh
      send_def server2_def world_at_def fields_of_def update_no_headers update_raises_nil)

lemma collect_x:
  "collect_all_follows (Suc (Suc n)) env2 ''did:x'' (init_client None None) world2 =
     Some ([''did:a'', ''did:b''], init_client None None,
       \<lparr>clock = 1003,
        sent = [(1000, \<lparr>req_endpoint = Describe_Repo, req_actor = ''x.example'',
                        req_cursor = None, req_bearer = None\<rparr>),
                (1000 + 1 / 4, \<lparr>req_endpoint = Get_Profile, req_actor = ''did:x'',
                        req_cursor = None, req_bearer = None\<rparr>),
                (1000 + 1 / 2, \<lparr>req_endpoint = Get_Follows, req_actor = ''did:x'',
                        req_cursor = None, req_bearer = None\<rparr>),
                (1000 + 11 / 4, \<lparr>req_endpoint = Get_Follows, req_actor = ''did:x'',
                        req_cursor = Some ''page2'', req_bearer = None\<rparr>)],
        calls = [Store_User ''did:x'' ''x.example'', Store_User ''did:a'' ''a.example'',
                 Store_User ''did:b'' ''b.example''],
        draws = 0\<rparr>)"
proof -
  show ?thesis
    unfolding collect_all_follows_def
    by (simp add: get_follows_def get_page_def initialize_fresh check_fresh bearer_fresh
      send_def server2_def env2_def world2_def actors_of_def cursor_of_def update_no_headers
      update_raises_nil store_user_def store_rpc_def sleep_def)
qed

subsection \<open>A failure in the middle of the pagination\<close>

text \<open>
  Claim C2 on a run. The first page of the follows of \<^verbatim>\<open>did:x\<close> comes with a cursor; the
  request for the second page fails with status 502. \<^verbatim>\<open>get_follows\<close> answers the failure
  with the empty page, \<^verbatim>\<open>_collect_all_follows\<close> takes it for the end of the list, and
  \<^verbatim>\<open>_process_account\<close> hands the first page alone to \<^verbatim>\<open>process_account_follows\<close> and marks
  the account completed.
\<close>

theorem partial_follows_are_reconciled:
  "snd (server2 3 \<lparr>req_endpoint = Get_Follows, req_actor = ''did:x'',
                    req_cursor = Some ''page2'', req_bearer = None\<rparr>) =
     Reply 502 (Fields [(''error'', ''UpstreamFailure'')]) [] \<and>
   map_option (\<lambda>(c, w). (endpoints_sent w, calls w))
     (process_account 10 env2 ''did:x'' ''x.example'' (init_client None None) (world_at 1000)) =
     Some ([Describe_Repo, Get_Profile, Get_Follows, Get_Follows],
           [Store_User ''did:x'' ''x.example'', Store_User ''did:a'' ''a.example'',
            Store_User ''did:b'' ''b.example'', Process_Follows ''did:x'' [''did:a'', ''did:b''],
            Mark_Crawled ''did:x'' Completed])"
proof -
  have s: "env_server env2 = server2" by (simp add: env2_def)
  have r: "env_random env2 k = 9 / 10" "env_store_ok env2 k call" for k call
    by (simp_all add: env2_def)
  have u: "store_user env2 ''did:x'' ''x.example''
             \<lparr>clock = 1000 + 1 / 2,
              sent = [(1000, \<lparr>req_endpoint = Describe_Repo, req_actor = ''x.example'',
                        req_cursor = None, req_bearer = None\<rparr>),
                      (1000 + 1 / 4, \<lparr>req_endpoint = Get_Profile, req_actor = ''did:x'',
                        req_cursor = None, req_bearer = None\<rparr>)],
              calls = [], draws = 0\<rparr> = world2"
    by (simp add: store_user_def store_rpc_def world2_def)
  have n: "(10::nat) = Suc (Suc 8)" by simp
  have c: "collect_all_follows 10 env2 ''did:x'' (init_client None None) world2 =
     Some ([''did:a'', ''did:b''], init_client None None,
       \<lparr>clock = 1003,
        sent = [(1000, \<lparr>req_endpoint = Describe_Repo, req_actor = ''x.example'',
                        req_cursor = None, req_bearer = None\<rparr>),
                (1000 + 1 / 4, \<lparr>req_endpoint = Get_Profile, req_actor = ''did:x'',
                        req_cursor = None, req_bearer = None\<rparr>),
                (1000 + 1 / 2, \<lparr>req_endpoint = Get_Follows, req_actor = ''did:x'',
                        req_cursor = None, req_bearer = None\<rparr>),
                (1000 + 11 / 4, \<lparr>req_endpoint = Get_Follows, req_actor = ''did:x'',
                        req_cursor = Some ''page2'', req_bearer = None\<rparr>)],
        calls = [Store_User ''did:x'' ''x.example'', Store_User ''did:a'' ''a.example'',
                 Store_User ''did:b'' ''b.example''],
        draws = 0\<rparr>)"
    unfolding n by (rule collect_x)
  have p: "map_option (\<lambda>(c, w). (endpoints_sent w, calls w))
     (process_account 10 env2 ''did:x'' ''x.example'' (init_client None None) (world_at 1000)) =
     Some ([Describe_Repo, Get_Profile, Get_Follows, Get_Follows],
           [Store_User ''did:x'' ''x.example'', Store_User ''did:a'' ''a.example'',
            Store_User ''did:b'' ''b.example'', Process_Follows ''did:x'' [''did:a'', ''did:b''],
            Mark_Crawled ''did:x'' Completed])"
    unfolding process_account_def s get_profile_x
    by (simp add: u [simplified] c draw_def store_rpc_def endpoints_sent_def r)
  have f: "snd (server2 3 \<lparr>req_endpoint = Get_Follows, req_actor = ''did:x'',
                    req_cursor = Some ''page2'', req_bearer = None\<rparr>) =
     Reply 502 (Fields [(''error'', ''UpstreamFailure'')]) []"
    by (simp add: server2_def)
  show ?thesis by (rule conjI [OF f p])
qed

lemma run_batch_total:
  "cnt \<le> fst (run_batch proc as cnt s) \<and>
   fst (run_batch proc as cnt s) \<le> cnt + int (length as)"
proof (induction as arbitrary: cnt s)
  case Nil
  show ?case by simp
next
  case (Cons a as)
  show ?case
  proof (cases "proc a s")
    case None
    then show ?thesis by simp
  next
    case (Some s')
    with Cons.IH [of "cnt + 1" s'] show ?thesis by simp
  qed
qed

lemma start_loop_bound:
  assumes lim: "\<forall>k. int (length (pull k (min 10 max_accounts))) \<le> min 10 max_accounts"
    and inv: "cnt \<le> max_accounts + min 10 max_accounts - 1"
  shows "total_of (start_loop n proc upd pull rec max_accounts k cnt s)
           \<le> max_accounts + min 10 max_accounts - 1"
  using inv
proof (induction n arbitrary: k cnt s)
  case 0
  then show ?case by simp
next
  case (Suc n)
  show ?case
  proof (cases "cnt < max_accounts")
    case False
    with Suc.prems show ?thesis by simp
  next
    case True
    show ?thesis
    proof (cases "pull k (min 10 max_accounts)")
      case Nil
      with True Suc.prems Suc.IH [of cnt "Suc k" s] show ?thesis by simp
    next
      case (Cons a as)
      obtain cnt' r where rb: "run_batch proc (a # as) cnt s = (cnt', r)"
        by (cases "run_batch proc (a # as) cnt s")
      have "cnt' \<le> cnt + int (length (a # as))"
        using run_batch_total [of cnt proc "a # as" s] rb by simp
      moreover have "int (length (a # as)) \<le> min 10 max_accounts"
        using lim Cons by (metis)
      ultimately have t: "cnt' \<le> max_accounts + min 10 max_accounts - 1"
        using True by linarith
      show ?thesis
      proof (cases r)
        case None
        with True Cons rb t show ?thesis by simp
      next
        case (Some s')
        from Suc.IH [OF t] have
          "total_of (start_loop n proc upd pull rec max_accounts (Suc k) cnt'
             (if cnt' mod 50 = 0 then upd s' else s')) \<le> max_accounts + min 10 max_accounts - 1" .
        with True Cons rb Some show ?thesis by simp
      qed
    qed
  qed
qed

lemma get_profile_server_unknown: "fst (get_profile server_unknown handle c w) = None"
  by (simp add: get_profile_def send_def server_unknown_def split: prod.splits)

lemma process_account_no_profile:
  assumes "fst (get_profile (env_server e) handle c w) = None"
  shows "process_account m e did handle c w \<noteq> None"
proof -
  obtain p c1 w1 where g: "get_profile (env_server e) handle c w = (p, c1, w1)"
    by (cases "get_profile (env_server e) handle c w")
  with assms have "p = None" by simp
  then show ?thesis
    unfolding process_account_def g
    by (cases "env_store_ok e (length (calls w1)) (Mark_Crawled did Failed)")
       (simp_all add: store_rpc_def)
qed

lemma process_and_wait_env8: "process_and_wait m env8 a s \<noteq> None"
proof -
  have "fst (get_profile (env_server env8) (snd a) (fst s) (snd s)) = None"
    by (simp add: env8_def get_profile_server_unknown)
  then have "process_account m env8 (fst a) (snd a) (fst s) (snd s) \<noteq> None"
    by (rule process_account_no_profile)
  then show ?thesis
    by (auto simp: process_and_wait_def split: prod.splits)
qed

lemma run_batch_all:
  assumes "\<And>a s. proc a s \<noteq> None"
  shows "\<exists>s'. run_batch proc as cnt s = (cnt + int (length as), Some s')"
proof (induction as arbitrary: cnt s)
  case Nil
  show ?case by simp
next
  case (Cons a as)
  from assms [of a s] obtain s1 where p: "proc a s = Some s1" by auto
  from Cons.IH [of "cnt + 1" s1] obtain s' where
    "run_batch proc as (cnt + 1) s1 = (cnt + 1 + int (length as), Some s')" by auto
  with p show ?case by simp
qed

lemma start_attains:
  "total_of (start 3 m env8 queue10 10 s) = 19"
proof -
  let ?proc = "process_and_wait m env8"
  let ?upd = "update_account_priorities env8"
  let ?a = "(''did:plc:missing'', ''missing.example'')"
  have p0: "next_accounts queue10 0 10 = replicate 9 ?a"
    and p1: "next_accounts queue10 (Suc 0) 10 = replicate 10 ?a"
    by (simp_all add: queue10_def)
  have r9: "replicate 9 ?a = ?a # replicate 8 ?a" and r10: "replicate 10 ?a = ?a # replicate 9 ?a"
    by (simp_all add: numeral_eq_Suc)
  from run_batch_all [of ?proc "replicate 9 ?a" 0 s, OF process_and_wait_env8]
  obtain s1 where b1: "run_batch ?proc (?a # replicate 8 ?a) 0 s = (9, Some s1)"
    unfolding r9 [symmetric] by auto
  from run_batch_all [of ?proc "replicate 10 ?a" 9 s1, OF process_and_wait_env8]
  obtain s2 where b2: "run_batch ?proc (?a # replicate 9 ?a) 9 s1 = (19, Some s2)"
    unfolding r10 [symmetric] by auto
  have n: "(3::nat) = Suc (Suc (Suc 0))" by simp
  have nr: "\<not> recommended queue10 k" for k by (simp add: queue10_def)
  have s3: "start_loop (Suc 0) ?proc ?upd (next_accounts queue10) (recommended queue10) 10 (Suc (Suc 0)) 19 s2
        = Finished 19 s2"
    by simp
  have s2: "start_loop (Suc (Suc 0)) ?proc ?upd (next_accounts queue10) (recommended queue10) 10 (Suc 0) 9 s1
        = Finished 19 s2"
    by (simp add: p1 r10 b2 nr del: run_batch.simps)
  have "start_loop (Suc (Suc (Suc 0))) ?proc ?upd (next_accounts queue10) (recommended queue10) 10 0 0 s
        = Finished 19 s2"
    unfolding start_loop.simps(2) [of "Suc (Suc 0)"]
    by (simp add: p0 r9 b1 s2 del: run_batch.simps start_loop.simps)
  then show ?thesis unfolding start_def n by simp
qed

subsection \<open>How far a run can go over its bound\<close>

text \<open>
  Claim C10, as the code has it. The loop looks at \<^verbatim>\<open>max_accounts\<close> before it pulls a
  batch and then processes the whole batch. For a run with \<^verbatim>\<open>max_accounts\<close> of at least 1,
  on a queue that hands out at most \<^verbatim>\<open>batch_size = min(10, max_accounts)\<close> accounts for a
  pull, the number of accounts processed is at most \<^verbatim>\<open>max_accounts + batch_size - 1\<close> at
  every moment of the run, and a run reaches the bound: with \<^verbatim>\<open>max_accounts = 10\<close>, nine
  accounts at the first pull and ten at the second, 19 accounts are processed. A run with
  \<^verbatim>\<open>max_accounts\<close> of 0 or less processes no account.
\<close>

theorem traversal_overrun_bound:
  assumes "1 \<le> max_accounts"
    and "\<forall>k. int (length (next_accounts q k (min 10 max_accounts))) \<le> min 10 max_accounts"
  shows "total_of (start n m e q max_accounts s) \<le> max_accounts + min 10 max_accounts - 1 \<and>
         total_of (start 3 m env8 queue10 10 s) = 10 + min 10 10 - 1 \<and>
         (\<forall>z \<le> 0. total_of (start n m e q z s) = 0)"
proof -
  have z: "\<forall>z \<le> 0. total_of (start n m e q z s) = 0"
    by (cases n) (simp_all add: start_def)
  have "(0::int) \<le> max_accounts + min 10 max_accounts - 1" using assms(1) by simp
  then have "total_of (start n m e q max_accounts s) \<le> max_accounts + min 10 max_accounts - 1"
    unfolding start_def using assms(2) by (intro start_loop_bound)
  moreover have "total_of (start 3 m env8 queue10 10 s) = 10 + min 10 10 - 1"
    by (simp add: start_attains)
  ultimately show ?thesis using z by (intro conjI)
qed

theorem traversal_overrun_bound_witness:
  "(1::int) \<le> 10 \<and>
   (\<forall>k. int (length (next_accounts queue10 k (min 10 10))) \<le> min 10 10) \<and>
   total_of (start 3 0 env8 queue10 10 (init_client None None, world_at 1000)) \<le> 10 + min 10 10 - 1 \<and>
   total_of (start 3 0 env8 queue10 10 (init_client None None, world_at 1000)) = 19 \<and>
   (0::int) \<le> 0 \<and>
   total_of (start 3 0 env8 queue10 0 (init_client None None, world_at 1000)) = 0"
proof -
  have h1: "(1::int) \<le> 10" by simp
  have h2: "\<forall>k. int (length (next_accounts queue10 k (min 10 10))) \<le> min 10 10"
    by (simp add: queue10_def)
  from traversal_overrun_bound [OF h1 h2, of 3 0 env8 "(init_client None None, world_at 1000)"]
  have "total_of (start 3 0 env8 queue10 10 (init_client None None, world_at 1000)) \<le> 10 + min 10 10 - 1"
    and "total_of (start 3 0 env8 queue10 10 (init_client None None, world_at 1000)) = 19"
    and "total_of (start 3 0 env8 queue10 0 (init_client None None, world_at 1000)) = 0"
    by simp_all
  with h1 h2 show ?thesis by (intro conjI) simp_all
qed

text \<open>
  The bound as the claim states it, for every run, fails at \<^verbatim>\<open>max_accounts = 0\<close>: the run
  processes no account, and \<^verbatim>\<open>max_accounts + batch_size - 1\<close> is \<open>-1\<close>.
\<close>

theorem overrun_bound_fails_at_zero:
  "start 1 0 env8 queue10 0 (init_client None None, world_at 1000) =
     Finished 0 (init_client None None, world_at 1000) \<and>
   \<not> total_of (start 1 0 env8 queue10 0 (init_client None None, world_at 1000))
       \<le> 0 + min 10 0 - 1"
  by (simp add: start_def)

lemma get_all_follows_loop_complete:
  "follow_pages n srv cursor = Some pages \<Longrightarrow>
   get_all_follows_loop n srv cursor acc = Some (acc \<union> complete_follow_set pages)"
proof (induction n arbitrary: cursor acc pages)
  case 0
  then show ?case by simp
next
  case (Suc n)
  show ?case
  proof (cases "srv (if truthy cursor then cursor else None)")
    case (Page fs cursor')
    show ?thesis
    proof (cases "truthy cursor'")
      case True
      with Suc.prems Page obtain rest where r: "follow_pages n srv cursor' = Some rest"
        and p: "pages = fs # rest" by auto
      from Suc.IH [OF r, of "acc \<union> set (page_dids fs)"]
      have "get_all_follows_loop n srv cursor' (acc \<union> set (page_dids fs)) =
            Some (acc \<union> set (page_dids fs) \<union> complete_follow_set rest)" .
      with Page True p show ?thesis
        by (simp add: complete_follow_set_def Un_assoc)
    next
      case False
      with Suc.prems Page have "pages = [fs]" by simp
      with Page False show ?thesis by (simp add: complete_follow_set_def)
    qed
  next
    case Bad_Status
    with Suc.prems show ?thesis by simp
  next
    case Raised
    with Suc.prems show ?thesis by simp
  qed
qed

lemma get_all_follows_complete:
  "follow_pages n srv None = Some pages \<Longrightarrow> get_all_follows n srv = Some (complete_follow_set pages)"
  using get_all_follows_loop_complete [of n srv None pages "{}"]
  by (simp add: get_all_follows_def)

lemma srv0_pages:
  "follow_pages 1 srv0 None = Some [[Some ''did:b'', Some ''did:c'', Some ''did:d'']]"
  by (simp add: srv0_def)

lemma srv0_complete:
  "complete_follow_set [[Some ''did:b'', Some ''did:c'', Some ''did:d'']] =
     {''did:b'', ''did:c'', ''did:d''}"
  by (simp add: complete_follow_set_def page_dids_def)

subsection \<open>What the unfollow detector does to the table\<close>

text \<open>
  Claim C1, as the code has it. Let the stored rows have distinct keys and pairs, and let
  \<open>F\<close> be the freshly observed complete follow-set of the subject: every page of
  \<^verbatim>\<open>getFollows\<close> is served, up to the page without a cursor, and \<open>F\<close> holds the accounts
  of these pages. Then \<^verbatim>\<open>get_all_follows\<close> returns \<open>F\<close>, and the pass rewrites exactly the
  active rows of the subject whose target is not in \<open>F\<close>: they become unfollowed with
  \<^verbatim>\<open>unfollowed_at\<close> set, and every other row stays as it is. The number of keys it marks
  is \<open>|S - F|\<close>. Afterwards the stored active follow-set is \<open>S \<inter> F\<close>: the pass inserts
  nothing, so a target in \<open>F - S\<close> is not stored by it.
\<close>

theorem unfollow_pass_diff:
  assumes "distinct (map row_id db)" and "distinct (map edge_pair db)"
    and "follow_pages n srv None = Some pages" and "F = complete_follow_set pages"
  shows "get_all_follows n srv = Some F \<and>
         process_account_unfollows n srv now did db =
           Some (map (\<lambda>r. if follower_did r = did \<and> follow_status r = Active \<and> following_did r \<notin> F
                          then retire now r else r) db) \<and>
         active_follows did (mark_unfollows now did F db) = active_follows did db \<inter> F \<and>
         length (unfollowed_dids did F db) = card (active_follows did db - F)"
proof -
  have g: "get_all_follows n srv = Some F"
    using assms(3,4) by (simp add: get_all_follows_complete)
  then have "process_account_unfollows n srv now did db = Some (mark_unfollows now did F db)"
    by (simp add: process_account_unfollows_def)
  then have a: "process_account_unfollows n srv now did db =
           Some (map (\<lambda>r. if follower_did r = did \<and> follow_status r = Active \<and> following_did r \<notin> F
                          then retire now r else r) db)"
    by (simp only: mark_unfollows_eq [OF assms(1,2)])
  have b: "active_follows did (mark_unfollows now did F db) = active_follows did db \<inter> F"
    using assms(1,2) by (rule active_follows_mark)
  have c: "length (unfollowed_dids did F db) = card (active_follows did db - F)"
    by (rule unfollowed_count)
  show ?thesis by (rule conjI [OF g conjI [OF a conjI [OF b c]]])
qed

theorem unfollow_pass_diff_witness:
  "follow_pages 1 srv0 None = Some [[Some ''did:b'', Some ''did:c'', Some ''did:d'']] \<and>
   get_all_follows 1 srv0 = Some {''did:b'', ''did:c'', ''did:d''} \<and>
   process_account_unfollows 1 srv0 7 ''did:x'' db0 =
     Some [retire 7 (new_row 1 ''did:x'' ''did:a'' None None),
           new_row 2 ''did:x'' ''did:b'' None None,
           new_row 3 ''did:x'' ''did:c'' None None] \<and>
   active_follows ''did:x'' (mark_unfollows 7 ''did:x'' {''did:b'', ''did:c'', ''did:d''} db0) =
     {''did:b'', ''did:c''} \<and>
   length (unfollowed_dids ''did:x'' {''did:b'', ''did:c'', ''did:d''} db0) = 1"
proof -
  note t = unfollow_pass_diff [OF db0_distinct srv0_pages srv0_complete [symmetric],
      of 7 "''did:x''"]
  have 1: "map (\<lambda>r. if follower_did r = ''did:x'' \<and> follow_status r = Active \<and>
                      following_did r \<notin> {''did:b'', ''did:c'', ''did:d''}
                   then retire 7 r else r) db0 =
           [retire 7 (new_row 1 ''did:x'' ''did:a'' None None),
            new_row 2 ''did:x'' ''did:b'' None None,
            new_row 3 ''did:x'' ''did:c'' None None]"
    by (simp add: db0_def new_row_def)
  have 2: "active_follows ''did:x'' db0 \<inter> {''did:b'', ''did:c'', ''did:d''} = {''did:b'', ''did:c''}"
    unfolding db0_active by simp
  have "active_follows ''did:x'' db0 - {''did:b'', ''did:c'', ''did:d''} = {''did:a''}"
    unfolding db0_active by (simp add: insert_Diff_if)
  then have 3: "card (active_follows ''did:x'' db0 - {''did:b'', ''did:c'', ''did:d''}) = 1"
    by simp
  from t have g: "get_all_follows 1 srv0 = Some {''did:b'', ''did:c'', ''did:d''}"
    by (rule conjunct1)
  from t have a: "process_account_unfollows 1 srv0 7 ''did:x'' db0 =
     Some [retire 7 (new_row 1 ''did:x'' ''did:a'' None None),
           new_row 2 ''did:x'' ''did:b'' None None,
           new_row 3 ''did:x'' ''did:c'' None None]"
    by (simp only: 1)
  from t have b: "active_follows ''did:x'' (mark_unfollows 7 ''did:x'' {''did:b'', ''did:c'', ''did:d''} db0) =
     {''did:b'', ''did:c''}"
    by (simp only: 2)
  from t have c: "length (unfollowed_dids ''did:x'' {''did:b'', ''did:c'', ''did:d''} db0) = 1"
    by (simp only: 3)
  show ?thesis by (rule conjI [OF srv0_pages conjI [OF g conjI [OF a conjI [OF b c]]]])
qed

text \<open>
  The claim as the specification states it fails: with \<open>S = {a, b, c}\<close> stored and the
  complete follow-set \<open>F = {b, c, d}\<close> observed on one page, the stored active follow-set
  after the pass is not \<open>F\<close>.
\<close>

theorem unfollow_pass_not_observed_set:
  "follow_pages 1 srv0 None = Some [[Some ''did:b'', Some ''did:c'', Some ''did:d'']] \<and>
   get_all_follows 1 srv0 = Some {''did:b'', ''did:c'', ''did:d''} \<and>
   process_account_unfollows 1 srv0 7 ''did:x'' db0 =
     Some (mark_unfollows 7 ''did:x'' {''did:b'', ''did:c'', ''did:d''} db0) \<and>
   active_follows ''did:x'' (mark_unfollows 7 ''did:x'' {''did:b'', ''did:c'', ''did:d''} db0)
     \<noteq> {''did:b'', ''did:c'', ''did:d''}"
proof -
  have eq: "active_follows ''did:x'' (mark_unfollows 7 ''did:x'' {''did:b'', ''did:c'', ''did:d''} db0) =
        {''did:b'', ''did:c''}"
    unfolding active_follows_mark [OF db0_distinct] db0_active by simp
  have ne: "active_follows ''did:x'' (mark_unfollows 7 ''did:x'' {''did:b'', ''did:c'', ''did:d''} db0)
     \<noteq> {''did:b'', ''did:c'', ''did:d''}"
  proof
    assume "active_follows ''did:x'' (mark_unfollows 7 ''did:x'' {''did:b'', ''did:c'', ''did:d''} db0)
      = {''did:b'', ''did:c'', ''did:d''}"
    then have "''did:d'' \<in> {''did:b'', ''did:c''}" unfolding eq by simp
    then show False by simp
  qed
  have p: "process_account_unfollows 1 srv0 7 ''did:x'' db0 =
     Some (mark_unfollows 7 ''did:x'' {''did:b'', ''did:c'', ''did:d''} db0)"
    unfolding process_account_unfollows_def srv0_follows by simp
  show ?thesis by (rule conjI [OF srv0_pages conjI [OF srv0_follows conjI [OF p ne]]])
qed





lemma client5_granted:
  "server_grants (length (sent (world_at t))) (session_request client5) =
     (1 / 2, Reply 200 (Session (Some ''jwt2'')) [])"
  by (simp add: server_grants_def session_request_def)

subsection \<open>The refresh of the token\<close>



text \<open>
  Two pages, both served: the enumeration is complete, and \<^verbatim>\<open>get_all_follows\<close> returns the
  accounts of both pages.
\<close>

lemma two_pages_complete:
  "follow_pages 2 srv_two None = Some [[Some ''did:b'', Some ''did:c''], [Some ''did:d'']] \<and>
   get_all_follows 2 srv_two = Some {''did:b'', ''did:c'', ''did:d''}"
proof -
  have n: "(2::nat) = Suc (Suc 0)" by simp
  have p: "follow_pages 2 srv_two None = Some [[Some ''did:b'', Some ''did:c''], [Some ''did:d'']]"
    unfolding n by (simp add: srv_two_def)
  have "get_all_follows 2 srv_two =
        Some (complete_follow_set [[Some ''did:b'', Some ''did:c''], [Some ''did:d'']])"
    using p by (rule get_all_follows_complete)
  moreover have "complete_follow_set [[Some ''did:b'', Some ''did:c''], [Some ''did:d'']] =
        {''did:b'', ''did:c'', ''did:d''}"
    by (simp add: complete_follow_set_def page_dids_def insert_commute)
  ultimately show ?thesis using p by simp
qed

end
